theory Spec2Isabelle
  imports Main "HOL-Library.Word"
begin

unbundle bit_operations_syntax

section \<open>Errors\<close>

text \<open>
  Every error value the modelled functions can return, and the one run-time panic
  they can raise. \<open>EOF\<close> and \<open>ErrUnexpectedEOF\<close> are the two sentinel errors of
  Go's \<open>io\<close> package; \<open>Wrapped\<close> is the result of \<open>errors.Wrap\<close> and
  \<open>errors.Wrapf\<close> (a new error value holding a message and the cause).
  \<open>SliceBoundsPanic\<close> is not a returned error: it stands for the panic of a slice
  expression or an index out of range.
\<close>

datatype error =
    EOF
  | ErrUnexpectedEOF
  | ErrNegativeOffset
  | SliceBoundsPanic
  | UnexpectedTarDataError
  | InvalidIncrementFileHeaderError
  | UnknownIncrementFileHeaderError
  | NoPostgresVersionError
  | UnsupportedPostgresVersionError int
  | CantOverwriteWalFileError string
  | ArchiveNonExistenceError
  | OtherError string
  | Wrapped string error

section \<open>Control queries of the PostgreSQL query runner\<close>












section \<open>Byte streams and files\<close>

text \<open>
  An \<open>io.Reader\<close> is modelled by the bytes it has still to deliver, after which it
  reports end of file. A \<open>ReadWriterAt\<close> (an open file) is modelled by its content;
  \<open>Stat\<close>, \<open>ReadAt\<close> and \<open>WriteAt\<close> behave as those of \<open>os.File\<close> on a
  regular file: reading past the end is \<open>io.EOF\<close>, writing past the end extends the
  file (the gap reads as zeros), a negative offset is an error.
\<close>

type_synonym byte = "8 word"
type_synonym reader = "byte list"
type_synonym File = "byte list"

text \<open>
  Modelled from the spec: the constants \<open>DatabasePageSize\<close>, \<open>sizeofInt32\<close> and
  \<open>headerSize\<close> are declared outside the given sources. The spec fixes the page at
  8192 bytes, a diffMap entry at 4 bytes and the page header that marks a missing
  page at the first 8 bytes of the block.
\<close>

definition DatabasePageSize :: nat where
  "DatabasePageSize = 8192"

definition sizeofInt32 :: "32 word" where
  "sizeofInt32 = 4"

definition headerSize :: nat where
  "headerSize = 8"

text \<open>Multiplication of two \<open>int64\<close> values: the product wraps around.\<close>

definition int64_mul :: "int \<Rightarrow> int \<Rightarrow> int" where
  "int64_mul a b = (a * b + 2 ^ 63) mod 2 ^ 64 - 2 ^ 63"

text \<open>
  \<open>io.ReadFull\<close> into a buffer of \<open>n\<close> bytes: \<open>io.EOF\<close> when no byte could be read,
  \<open>io.ErrUnexpectedEOF\<close> when the stream ends inside the buffer.
\<close>

definition ReadFull :: "nat \<Rightarrow> reader \<Rightarrow> error + (byte list \<times> reader)" where
  "ReadFull n r =
    (if n \<le> length r then Inr (take n r, drop n r)
     else if r = [] then Inl EOF
     else Inl ErrUnexpectedEOF)"

text \<open>\<open>io.CopyN(ioutil.Discard, r, n)\<close>: \<open>io.EOF\<close> when fewer than \<open>n\<close> bytes are left.\<close>

definition CopyN_Discard :: "nat \<Rightarrow> reader \<Rightarrow> error + reader" where
  "CopyN_Discard n r = (if n \<le> length r then Inr (drop n r) else Inl EOF)"

definition Stat :: "File \<Rightarrow> error + nat" where
  "Stat f = Inr (length f)"

definition ReadAt :: "File \<Rightarrow> nat \<Rightarrow> int \<Rightarrow> error + byte list" where
  "ReadAt f n off =
    (if off < 0 then Inl ErrNegativeOffset
     else if n = 0 then Inr []
     else if nat off + n \<le> length f then Inr (take n (drop (nat off) f))
     else Inl EOF)"

definition WriteAt :: "File \<Rightarrow> byte list \<Rightarrow> int \<Rightarrow> error + File" where
  "WriteAt f p off =
    (if off < 0 then Inl ErrNegativeOffset
     else if p = [] then Inr f
     else Inr (take (nat off) f @ replicate (nat off - length f) 0 @ p
               @ drop (nat off + length p) f))"

text \<open>
  A slice expression \<open>s[lo:hi]\<close> on a slice whose capacity is its length, and
  \<open>binary.LittleEndian.Uint32\<close> / \<open>Uint64\<close>, which index the last byte they need first.
\<close>

definition slice :: "byte list \<Rightarrow> nat \<Rightarrow> nat \<Rightarrow> error + byte list" where
  "slice s lo hi =
    (if lo \<le> hi \<and> hi \<le> length s then Inr (take (hi - lo) (drop lo s))
     else Inl SliceBoundsPanic)"

definition Uint32 :: "byte list \<Rightarrow> error + 32 word" where
  "Uint32 b =
    (if length b < 4 then Inl SliceBoundsPanic
     else Inr (ucast (b ! 0) OR push_bit 8 (ucast (b ! 1)) OR push_bit 16 (ucast (b ! 2))
               OR push_bit 24 (ucast (b ! 3))))"

definition Uint64 :: "byte list \<Rightarrow> error + 64 word" where
  "Uint64 b =
    (if length b < 8 then Inl SliceBoundsPanic
     else Inr (ucast (b ! 0) OR push_bit 8 (ucast (b ! 1)) OR push_bit 16 (ucast (b ! 2))
               OR push_bit 24 (ucast (b ! 3)) OR push_bit 32 (ucast (b ! 4))
               OR push_bit 40 (ucast (b ! 5)) OR push_bit 48 (ucast (b ! 6))
               OR push_bit 56 (ucast (b ! 7))))"

section \<open>The increment codec of \<open>pagefile_new.go\<close>\<close>

definition isTarReaderEmpty :: "reader \<Rightarrow> bool" where
  "isTarReaderEmpty reader = (length (take 1 reader) = 0)"

definition getPageCount :: "File \<Rightarrow> error + int" where
  "getPageCount target =
    (case Stat target of
       Inl err \<Rightarrow> Inl (Wrapped ''error getting fileInfo'' err)
     | Inr fileSize \<Rightarrow> Inr (int fileSize div int DatabasePageSize))"

definition checkIfMissingPage :: "File \<Rightarrow> int \<Rightarrow> error + bool" where
  "checkIfMissingPage target blockNo =
    (let emptyPageHeader = replicate headerSize (0 :: byte) in
     case ReadAt target headerSize (int64_mul blockNo (int DatabasePageSize)) of
       Inl err \<Rightarrow> Inl err
     | Inr pageHeader \<Rightarrow> Inr (pageHeader = emptyPageHeader))"

text \<open>
  \<open>writePage\<close> returns the error (\<open>None\<close> is \<open>nil\<close>), the target after the call and
  what is left of \<open>content\<close>.
\<close>

definition writePage :: "File \<Rightarrow> int \<Rightarrow> reader \<Rightarrow> bool \<Rightarrow> error option \<times> File \<times> reader" where
  "writePage target blockNo content overwrite =
    (case ReadFull DatabasePageSize content of
       Inl err \<Rightarrow> (Some err, target, [])
     | Inr (page, content') \<Rightarrow>
         (case (if \<not> overwrite then checkIfMissingPage target blockNo else Inr True) of
            Inl err \<Rightarrow> (Some err, target, content')
          | Inr isMissingPage \<Rightarrow>
              if \<not> isMissingPage then (None, target, content')
              else (case WriteAt target page (int64_mul blockNo (int DatabasePageSize)) of
                      Inl err \<Rightarrow> (Some err, target, content')
                    | Inr target' \<Rightarrow> (None, target', content'))))"

text \<open>
  Modelled from the spec: \<open>parsingutil.ParseMultipleFieldsFromReader\<close> is not among
  the given sources. For the two fields \<open>getIncrementHeaderFields\<close> asks for, the spec
  gives a little-endian \<open>fileSize:uint64\<close> followed by a little-endian
  \<open>diffBlockCount:uint32\<close>.
\<close>

definition ParseMultipleFieldsFromReader :: "reader \<Rightarrow> error + (64 word \<times> 32 word \<times> reader)" where
  "ParseMultipleFieldsFromReader r =
    (case ReadFull 8 r of
       Inl err \<Rightarrow> Inl err
     | Inr (b8, r1) \<Rightarrow>
         (case Uint64 b8 of
            Inl err \<Rightarrow> Inl err
          | Inr fileSize \<Rightarrow>
              (case ReadFull 4 r1 of
                 Inl err \<Rightarrow> Inl err
               | Inr (b4, r2) \<Rightarrow>
                   (case Uint32 b4 of
                      Inl err \<Rightarrow> Inl err
                    | Inr diffBlockCount \<Rightarrow> Inr (fileSize, diffBlockCount, r2)))))"

text \<open>
  \<open>ReadIncrementFileHeader\<close> is not among the given sources either; the functions that
  call it take it as the parameter \<open>rih\<close>: given the reader, it rejects the stream
  with an error or returns the reader positioned behind the header.
\<close>

definition getIncrementHeaderFields ::
  "(reader \<Rightarrow> error + reader) \<Rightarrow> reader \<Rightarrow> error + (64 word \<times> 32 word \<times> byte list \<times> reader)" where
  "getIncrementHeaderFields rih increment =
    (case rih increment of
       Inl err \<Rightarrow> Inl err
     | Inr r1 \<Rightarrow>
         (case ParseMultipleFieldsFromReader r1 of
            Inl err \<Rightarrow> Inl err
          | Inr (fileSize, diffBlockCount, r2) \<Rightarrow>
              (case ReadFull (unat (diffBlockCount * sizeofInt32)) r2 of
                 Inl err \<Rightarrow> Inl err
               | Inr (diffMap, r3) \<Rightarrow> Inr (fileSize, diffBlockCount, diffMap, r3))))"

text \<open>
  The expression
  \<open>binary.LittleEndian.Uint32(diffMap[i*sizeofInt32 : (i+1)*sizeofInt32])\<close>, with the
  \<open>uint32\<close> products wrapping around.
\<close>

definition diffMapEntry :: "byte list \<Rightarrow> 32 word \<Rightarrow> error + 32 word" where
  "diffMapEntry diffMap i =
    (case slice diffMap (unat (i * sizeofInt32)) (unat ((i + 1) * sizeofInt32)) of
       Inl err \<Rightarrow> Inl err
     | Inr b \<Rightarrow> Uint32 b)"

subsection \<open>\<open>CreateFileFromIncrement\<close>\<close>

text \<open>
  The first loop fills the set \<open>deltaBlockNumbers\<close> (a \<open>map[int64]bool\<close>, absent keys
  read as \<open>false\<close>) from the diffMap.
\<close>

function deltaBlockNumbersLoop ::
  "32 word \<Rightarrow> 32 word \<Rightarrow> byte list \<Rightarrow> (int \<Rightarrow> bool) \<Rightarrow> error + (int \<Rightarrow> bool)" where
  "deltaBlockNumbersLoop i diffBlockCount diffMap deltaBlockNumbers =
    (if i < diffBlockCount then
       (case diffMapEntry diffMap i of
          Inl err \<Rightarrow> Inl err
        | Inr blockNo \<Rightarrow>
            deltaBlockNumbersLoop (i + 1) diffBlockCount diffMap
              (deltaBlockNumbers(uint blockNo := True)))
     else Inr deltaBlockNumbers)"
  by pat_completeness auto
termination
proof (relation "measure (\<lambda>(i, n, _, _). unat n - unat i)")
  fix i n :: "32 word" and diffMap :: "byte list" and m :: "int \<Rightarrow> bool" and b :: "32 word"
  assume "i < n"
  then have less: "unat i < unat n" by (simp add: word_less_nat_alt)
  moreover have "unat n < 2 ^ 32" using unsigned_less [of n] by simp
  ultimately have "unat (i + 1) = Suc (unat i)" by (simp add: unat_word_ariths)
  with less
  show "((i + 1, n, diffMap, m(uint b := True)), (i, n, diffMap, m))
          \<in> measure (\<lambda>(i, n, _, _). unat n - unat i)"
    by simp
qed simp

text \<open>The second loop walks the pages \<open>0 \<le> i < pageCount\<close> of the file to create.\<close>

function createLoop ::
  "int \<Rightarrow> int \<Rightarrow> (int \<Rightarrow> bool) \<Rightarrow> File \<Rightarrow> reader \<Rightarrow> error option \<times> File \<times> reader" where
  "createLoop i pageCount deltaBlockNumbers target increment =
    (if i < pageCount then
       (if deltaBlockNumbers i then
          (case writePage target i increment True of
             (Some err, target', increment') \<Rightarrow> (Some err, target', increment')
           | (None, target', increment') \<Rightarrow>
               createLoop (i + 1) pageCount deltaBlockNumbers target' increment')
        else
          (case WriteAt target (replicate DatabasePageSize 0) (int64_mul i (int DatabasePageSize)) of
             Inl err \<Rightarrow> (Some err, target, increment)
           | Inr target' \<Rightarrow> createLoop (i + 1) pageCount deltaBlockNumbers target' increment))
     else (None, target, increment))"
  by pat_completeness auto
termination
  by (relation "measure (\<lambda>(i, pageCount, _, _, _). nat (pageCount - i))") auto

text \<open>
  The result is the returned error and the target as the call leaves it. The check
  for extra blocks behind the last page only writes a log line.
\<close>

definition CreateFileFromIncrement ::
  "(reader \<Rightarrow> error + reader) \<Rightarrow> reader \<Rightarrow> File \<Rightarrow> error option \<times> File" where
  "CreateFileFromIncrement rih increment target =
    (case getIncrementHeaderFields rih increment of
       Inl err \<Rightarrow> (Some err, target)
     | Inr (fileSize, diffBlockCount, diffMap, increment') \<Rightarrow>
         (case deltaBlockNumbersLoop 0 diffBlockCount diffMap (\<lambda>_. False) of
            Inl err \<Rightarrow> (Some err, target)
          | Inr deltaBlockNumbers \<Rightarrow>
              (let pageCount = int (unat fileSize div DatabasePageSize) in
               case createLoop 0 pageCount deltaBlockNumbers target increment' of
                 (err, target', _) \<Rightarrow> (err, target'))))"

subsection \<open>\<open>WritePagesFromIncrement\<close>\<close>

function writePagesLoop ::
  "32 word \<Rightarrow> 32 word \<Rightarrow> byte list \<Rightarrow> int \<Rightarrow> bool \<Rightarrow> File \<Rightarrow> reader
     \<Rightarrow> error option \<times> File \<times> reader" where
  "writePagesLoop i diffBlockCount diffMap targetPageCount overwriteExisting target increment =
    (if i < diffBlockCount then
       (case diffMapEntry diffMap i of
          Inl err \<Rightarrow> (Some err, target, increment)
        | Inr w \<Rightarrow>
            (let blockNo = uint w in
             if blockNo \<ge> targetPageCount then
               (case CopyN_Discard DatabasePageSize increment of
                  Inl err \<Rightarrow> (Some err, target, [])
                | Inr increment' \<Rightarrow>
                    writePagesLoop (i + 1) diffBlockCount diffMap targetPageCount
                      overwriteExisting target increment')
             else
               (case writePage target blockNo increment overwriteExisting of
                  (Some err, target', increment') \<Rightarrow> (Some err, target', increment')
                | (None, target', increment') \<Rightarrow>
                    writePagesLoop (i + 1) diffBlockCount diffMap targetPageCount
                      overwriteExisting target' increment')))
     else (None, target, increment))"
  by pat_completeness auto
termination
proof (relation "measure (\<lambda>(i, n, _, _, _, _, _). unat n - unat i)")
  fix i n :: "32 word"
  assume "i < n"
  then have less: "unat i < unat n" by (simp add: word_less_nat_alt)
  moreover have "unat n < 2 ^ 32" using unsigned_less [of n] by simp
  ultimately have "unat (i + 1) = Suc (unat i)" by (simp add: unat_word_ariths)
  with less have step: "unat n - unat (i + 1) < unat n - unat i" by simp
  {
    fix dm :: "byte list" and tpc :: int and ow :: bool and t t' :: File and r r' :: reader
    show "((i + 1, n, dm, tpc, ow, t, r'), (i, n, dm, tpc, ow, t, r))
            \<in> measure (\<lambda>(i, n, _, _, _, _, _). unat n - unat i)"
      using step by simp
    show "((i + 1, n, dm, tpc, ow, t', r'), (i, n, dm, tpc, ow, t, r))
            \<in> measure (\<lambda>(i, n, _, _, _, _, _). unat n - unat i)"
      using step by simp
  }
qed simp

definition WritePagesFromIncrement ::
  "(reader \<Rightarrow> error + reader) \<Rightarrow> reader \<Rightarrow> File \<Rightarrow> bool \<Rightarrow> error option \<times> File" where
  "WritePagesFromIncrement rih increment target overwriteExisting =
    (case getIncrementHeaderFields rih increment of
       Inl err \<Rightarrow> (Some err, target)
     | Inr (fileSize, diffBlockCount, diffMap, increment') \<Rightarrow>
         (case getPageCount target of
            Inl err \<Rightarrow> (Some err, target)
          | Inr targetPageCount \<Rightarrow>
              (case writePagesLoop 0 diffBlockCount diffMap targetPageCount overwriteExisting
                      target increment' of
                 (Some err, target', _) \<Rightarrow> (Some err, target')
               | (None, target', increment'') \<Rightarrow>
                   if \<not> isTarReaderEmpty increment'' then (Some UnexpectedTarDataError, target')
                   else (None, target'))))"

subsection \<open>\<open>RestoreMissingPages\<close>\<close>

text \<open>The \<open>break\<close> on \<open>io.EOF\<close> leaves the loop with no error to return.\<close>

function restoreLoop :: "int \<Rightarrow> int \<Rightarrow> File \<Rightarrow> reader \<Rightarrow> error option \<times> File \<times> reader" where
  "restoreLoop i targetPageCount target base =
    (if i < targetPageCount then
       (case writePage target i base False of
          (Some err, target', base') \<Rightarrow>
            if err = EOF then (None, target', base') else (Some err, target', base')
        | (None, target', base') \<Rightarrow> restoreLoop (i + 1) targetPageCount target' base')
     else (None, target, base))"
  by pat_completeness auto
termination
  by (relation "measure (\<lambda>(i, targetPageCount, _, _). nat (targetPageCount - i))") auto

definition RestoreMissingPages :: "reader \<Rightarrow> File \<Rightarrow> error option \<times> File" where
  "RestoreMissingPages base target =
    (case getPageCount target of
       Inl err \<Rightarrow> (Some err, target)
     | Inr targetPageCount \<Rightarrow>
         (case restoreLoop 0 targetPageCount target base of
            (err, target', _) \<Rightarrow> (err, target')))"

subsection \<open>The header reader used in the examples\<close>

text \<open>
  Modelled from the spec: \<open>ReadIncrementFileHeader\<close> is not among the given sources.
  The spec frames an increment as the magic bytes \<open>wi\<close>, a version byte and a reserved
  byte, followed by a big-endian LSN of 8 bytes, and names a whitelist of accepted
  magic and version values without listing it; the accepted version bytes are the
  parameter \<open>versions\<close>. The reader comes back positioned at \<open>fileSize\<close>.
\<close>

definition ReadIncrementFileHeader :: "byte list \<Rightarrow> reader \<Rightarrow> error + reader" where
  "ReadIncrementFileHeader versions r =
    (case ReadFull 4 r of
       Inl err \<Rightarrow> Inl err
     | Inr (header, r1) \<Rightarrow>
         if header ! 0 \<noteq> 0x77 \<or> header ! 1 \<noteq> 0x69 then Inl InvalidIncrementFileHeaderError
         else if header ! 2 \<notin> set versions then Inl UnknownIncrementFileHeaderError
         else (case ReadFull 8 r1 of
                 Inl err \<Rightarrow> Inl err
               | Inr (lsn, r2) \<Rightarrow> Inr r2))"

section \<open>The uploader of \<open>uploader.go\<close>\<close>

text \<open>
  \<open>storage.Folder\<close> is an interface outside the sources, and the uploader calls
  nothing of it but \<open>PutObject\<close>. A folder is modelled by what it answers to its
  \<open>n\<close>-th call (the error, and how many bytes of the content it has read by then) and
  by the log of the calls made so far. Any deterministic folder is of this form.
\<close>

record Folder =
  respond :: "nat \<Rightarrow> error option \<times> nat"
  puts :: "(string \<times> byte list) list"

definition PutObject :: "Folder \<Rightarrow> string \<Rightarrow> reader \<Rightarrow> error option \<times> reader \<times> Folder" where
  "PutObject folder path content =
    (case respond folder (length (puts folder)) of
       (err, n) \<Rightarrow> (err, drop n content, folder\<lparr>puts := puts folder @ [(path, content)]\<rparr>))"

text \<open>
  A compressor is its extension and the bytes \<open>CompressAndEncrypt\<close> delivers for an
  input. The wait group and the archive status manager of the uploader carry no data
  of this model. \<open>tarSize\<close> is the byte counter (\<open>None\<close> once size tracking is
  disabled): the \<open>WithSizeReader\<close> around the content adds every byte read to it.
\<close>

record Compressor =
  compress :: "byte list \<Rightarrow> byte list"
  FileExtension :: string

record Uploader =
  UploadingFolder :: Folder
  Compressor :: Compressor
  Failed :: bool
  tarSize :: "int option"

record NamedReader =
  Name :: string
  Data :: "byte list"

record UploadObject =
  Path :: string
  Content :: "byte list"

definition NewUploader :: "Compressor \<Rightarrow> Folder \<Rightarrow> Uploader" where
  "NewUploader compressor uploadingLocation =
    \<lparr>UploadingFolder = uploadingLocation, Compressor = compressor, Failed = False,
     tarSize = Some 0\<rparr>"

text \<open>\<open>finish\<close> loads the flag to decide on a log line; the result is what it loaded.\<close>

definition finish :: "Uploader \<Rightarrow> bool" where
  "finish uploader = Failed uploader"

definition clone :: "Uploader \<Rightarrow> Uploader" where
  "clone uploader =
    \<lparr>UploadingFolder = UploadingFolder uploader, Compressor = Compressor uploader,
     Failed = Failed uploader, tarSize = tarSize uploader\<rparr>"

definition DisableSizeTracking :: "Uploader \<Rightarrow> Uploader" where
  "DisableSizeTracking uploader = uploader\<lparr>tarSize := None\<rparr>"

definition Compression :: "Uploader \<Rightarrow> Compressor" where
  "Compression uploader = Compressor uploader"

definition retries :: int where
  "retries = 3"

function UploadLoop ::
  "int \<Rightarrow> error option \<Rightarrow> Uploader \<Rightarrow> string \<Rightarrow> reader \<Rightarrow> error option \<times> Uploader" where
  "UploadLoop i err uploader path content =
    (if i < retries then
       (case PutObject (UploadingFolder uploader) path content of
          (err', content', folder') \<Rightarrow>
            (let uploader' = uploader
                   \<lparr>UploadingFolder := folder',
                    tarSize := map_option (\<lambda>n. n + int (length content - length content'))
                                 (tarSize uploader)\<rparr>
             in if err' = None then (None, uploader')
                else UploadLoop (i + 1) err' uploader' path content'))
     else (err, uploader\<lparr>Failed := True\<rparr>))"
  by pat_completeness auto
termination
  by (relation "measure (\<lambda>(i, _, _, _, _). nat (retries - i))") auto

definition Upload :: "Uploader \<Rightarrow> string \<Rightarrow> reader \<Rightarrow> error option \<times> Uploader" where
  "Upload uploader path content = UploadLoop 0 None uploader path content"

fun uploadMultiple :: "Uploader \<Rightarrow> UploadObject list \<Rightarrow> error option \<times> Uploader" where
  "uploadMultiple uploader [] = (None, uploader)"
| "uploadMultiple uploader (object # objects) =
    (case Upload uploader (Path object) (Content object) of
       (Some err, uploader') \<Rightarrow> (Some err, uploader')
     | (None, uploader') \<Rightarrow> uploadMultiple uploader' objects)"

text \<open>
  \<open>filepath.Base\<close> on a Unix path. \<open>utility.SanitizePath\<close> is outside the sources and
  is the parameter \<open>SanitizePath\<close> of \<open>UploadFile\<close>.
\<close>

definition Base :: "string \<Rightarrow> string" where
  "Base path =
    (if path = [] then ''.''
     else (let stripped = rev (dropWhile (\<lambda>c. c = CHR ''/'') (rev path));
               element = rev (takeWhile (\<lambda>c. c \<noteq> CHR ''/'') (rev stripped))
           in if element = [] then ''/'' else element))"

definition UploadFile ::
  "(string \<Rightarrow> string) \<Rightarrow> Uploader \<Rightarrow> NamedReader \<Rightarrow> error option \<times> Uploader" where
  "UploadFile SanitizePath uploader file =
    (let compressedFile = compress (Compressor uploader) (Data file);
         dstPath = SanitizePath (Base (Name file) @ ''.'' @ FileExtension (Compressor uploader))
     in Upload uploader dstPath compressedFile)"

text \<open>
  The operations of an uploader, and the uploader a sequence of them leaves behind.
  \<open>clone\<close> builds a second uploader and leaves the receiver as it is. The stream
  pushes of \<open>copy_handler.go\<close> compress their input and call \<open>Upload\<close>; they touch
  the flag through \<open>Upload\<close> alone.
\<close>

datatype UploaderOp =
    OpUpload string "byte list"
  | OpUploadFile NamedReader
  | OpUploadMultiple "UploadObject list"
  | OpFinish
  | OpClone
  | OpDisableSizeTracking
  | OpCompression

fun applyOp :: "(string \<Rightarrow> string) \<Rightarrow> Uploader \<Rightarrow> UploaderOp \<Rightarrow> error option \<times> Uploader" where
  "applyOp SanitizePath uploader (OpUpload path content) = Upload uploader path content"
| "applyOp SanitizePath uploader (OpUploadFile file) = UploadFile SanitizePath uploader file"
| "applyOp SanitizePath uploader (OpUploadMultiple objects) = uploadMultiple uploader objects"
| "applyOp SanitizePath uploader OpFinish = (None, uploader)"
| "applyOp SanitizePath uploader OpClone = (None, uploader)"
| "applyOp SanitizePath uploader OpDisableSizeTracking = (None, DisableSizeTracking uploader)"
| "applyOp SanitizePath uploader OpCompression = (None, uploader)"

fun applyOps :: "(string \<Rightarrow> string) \<Rightarrow> Uploader \<Rightarrow> UploaderOp list \<Rightarrow> Uploader" where
  "applyOps SanitizePath uploader [] = uploader"
| "applyOps SanitizePath uploader (op # ops) =
     applyOps SanitizePath (snd (applyOp SanitizePath uploader op)) ops"

section \<open>WAL push: \<open>wal_push_handler.go\<close>\<close>


definition Wrap :: "string \<Rightarrow> error option \<Rightarrow> error option" where
  "Wrap message err = (case err of None \<Rightarrow> None | Some e \<Rightarrow> Some (Wrapped message e))"









text \<open>The loop equations are unfolded one iteration at a time, never by the simplifier.\<close>

declare deltaBlockNumbersLoop.simps [simp del]
declare createLoop.simps [simp del]
declare writePagesLoop.simps [simp del]
declare restoreLoop.simps [simp del]
declare UploadLoop.simps [simp del]

section \<open>Vocabulary of the statements\<close>

text \<open>
  The little-endian encodings of \<open>uint32\<close> and \<open>uint64\<close> (what
  \<open>binary.LittleEndian.PutUint32\<close> and \<open>PutUint64\<close> write), the \<open>j\<close>-th page of a
  file or stream, the file with page \<open>j\<close> replaced, and the test the code applies to
  the header of a page.
\<close>

definition le32 :: "32 word \<Rightarrow> byte list" where
  "le32 w = [ucast w, ucast (drop_bit 8 w), ucast (drop_bit 16 w), ucast (drop_bit 24 w)]"

definition le64 :: "64 word \<Rightarrow> byte list" where
  "le64 w = [ucast w, ucast (drop_bit 8 w), ucast (drop_bit 16 w), ucast (drop_bit 24 w),
             ucast (drop_bit 32 w), ucast (drop_bit 40 w), ucast (drop_bit 48 w),
             ucast (drop_bit 56 w)]"

definition pageAt :: "byte list \<Rightarrow> nat \<Rightarrow> byte list" where
  "pageAt f j = take DatabasePageSize (drop (j * DatabasePageSize) f)"

definition putPage :: "File \<Rightarrow> nat \<Rightarrow> byte list \<Rightarrow> File" where
  "putPage f j p = take (j * DatabasePageSize) f @ p @ drop (j * DatabasePageSize + DatabasePageSize) f"

definition missingPage :: "byte list \<Rightarrow> bool" where
  "missingPage page = (take headerSize page = replicate headerSize 0)"

text \<open>
  The loop of \<open>WritePagesFromIncrement\<close> as a recursion over the block numbers decoded
  from the diffMap; the loop over the encoded map is shown to compute it.
\<close>

fun writeEntries ::
  "32 word list \<Rightarrow> int \<Rightarrow> bool \<Rightarrow> File \<Rightarrow> reader \<Rightarrow> error option \<times> File \<times> reader" where
  "writeEntries [] targetPageCount overwriteExisting target increment = (None, target, increment)"
| "writeEntries (w # ws) targetPageCount overwriteExisting target increment =
    (if uint w \<ge> targetPageCount then
       (case CopyN_Discard DatabasePageSize increment of
          Inl err \<Rightarrow> (Some err, target, [])
        | Inr increment' \<Rightarrow> writeEntries ws targetPageCount overwriteExisting target increment')
     else
       (case writePage target (uint w) increment overwriteExisting of
          (Some err, target', increment') \<Rightarrow> (Some err, target', increment')
        | (None, target', increment') \<Rightarrow>
            writeEntries ws targetPageCount overwriteExisting target' increment'))"

text \<open>
  The header used in the examples: the magic bytes \<open>wi\<close>, the version byte \<open>1\<close>, a
  reserved byte and an LSN of 8 zero bytes; \<open>exampleReader\<close> accepts this version.
\<close>

definition exampleHeader :: "byte list" where
  "exampleHeader = [0x77, 0x69, 0x31, 0x55] @ replicate 8 0"

definition exampleReader :: "reader \<Rightarrow> error + reader" where
  "exampleReader = ReadIncrementFileHeader [0x31]"

text \<open>
  The folders of the uploader examples: one that fails its first two calls and accepts
  from the third on, and one that fails every call. Neither has received a call yet.
\<close>

definition exampleCompressor :: Compressor where
  "exampleCompressor = \<lparr>compress = (\<lambda>bytes. bytes), FileExtension = ''lz4''\<rparr>"

definition flakyFolder :: Folder where
  "flakyFolder =
    \<lparr>respond = (\<lambda>n. if n < 2 then (Some (OtherError ''transient''), 0) else (None, 3)),
     puts = []\<rparr>"

definition deadFolder :: Folder where
  "deadFolder = \<lparr>respond = (\<lambda>n. (Some (OtherError ''unreachable''), 0)), puts = []\<rparr>"





section \<open>Verification: control queries\<close>







section \<open>Verification: bytes, streams and files\<close>

lemma Uint32_le32: "Uint32 (le32 w) = Inr w"
proof -
  have "ucast (ucast w :: byte) OR push_bit 8 (ucast (ucast (drop_bit 8 w) :: byte))
          OR push_bit 16 (ucast (ucast (drop_bit 16 w) :: byte))
          OR push_bit 24 (ucast (ucast (drop_bit 24 w) :: byte)) = w"
    (is "?lhs = w")
  proof (rule bit_word_eqI)
    fix n assume "n < LENGTH(32)"
    then consider "n < 8" | "8 \<le> n \<and> n < 16" | "16 \<le> n \<and> n < 24" | "24 \<le> n \<and> n < 32"
      by fastforce
    then show "bit ?lhs n = bit w n"
      by cases (auto simp: bit_simps)
  qed
  then show ?thesis by (simp add: Uint32_def le32_def)
qed

lemma Uint64_le64: "Uint64 (le64 w) = Inr w"
proof -
  have "ucast (ucast w :: byte) OR push_bit 8 (ucast (ucast (drop_bit 8 w) :: byte))
          OR push_bit 16 (ucast (ucast (drop_bit 16 w) :: byte))
          OR push_bit 24 (ucast (ucast (drop_bit 24 w) :: byte))
          OR push_bit 32 (ucast (ucast (drop_bit 32 w) :: byte))
          OR push_bit 40 (ucast (ucast (drop_bit 40 w) :: byte))
          OR push_bit 48 (ucast (ucast (drop_bit 48 w) :: byte))
          OR push_bit 56 (ucast (ucast (drop_bit 56 w) :: byte)) = w"
    (is "?lhs = w")
  proof (rule bit_word_eqI)
    fix n assume "n < LENGTH(64)"
    then consider "n < 8" | "8 \<le> n \<and> n < 16" | "16 \<le> n \<and> n < 24" | "24 \<le> n \<and> n < 32"
      | "32 \<le> n \<and> n < 40" | "40 \<le> n \<and> n < 48" | "48 \<le> n \<and> n < 56" | "56 \<le> n \<and> n < 64"
      by fastforce
    then show "bit ?lhs n = bit w n"
      by cases (auto simp: bit_simps)
  qed
  then show ?thesis by (simp add: Uint64_def le64_def)
qed

lemma length_le32 [simp]: "length (le32 w) = 4"
  by (simp add: le32_def)

lemma length_le64 [simp]: "length (le64 w) = 8"
  by (simp add: le64_def)

lemma ReadFull_append: "length a = n \<Longrightarrow> ReadFull n (a @ r) = Inr (a, r)"
  by (simp add: ReadFull_def)

lemma Parse_encoded:
  "ParseMultipleFieldsFromReader (le64 fs @ le32 cnt @ r) = Inr (fs, cnt, r)"
  by (simp add: ParseMultipleFieldsFromReader_def ReadFull_append Uint64_le64 Uint32_le32)

lemma length_concat_uniform:
  "\<forall>x\<in>set xs. length x = n \<Longrightarrow> length (concat xs) = length xs * n"
  by (induction xs) auto

lemma concat_chunk:
  "\<forall>x\<in>set xs. length x = n \<Longrightarrow> k < length xs \<Longrightarrow> take n (drop (k * n) (concat xs)) = xs ! k"
proof (induction xs arbitrary: k)
  case Nil
  then show ?case by simp
next
  case (Cons x xs)
  show ?case
  proof (cases k)
    case 0
    with Cons.prems show ?thesis by simp
  next
    case (Suc j)
    with Cons.prems have "take n (drop (j * n) (concat xs)) = xs ! j"
      by (intro Cons.IH) auto
    with Suc Cons.prems show ?thesis by (simp add: add.commute)
  qed
qed

lemma unat_index_times4:
  assumes "k < 2 ^ 30"
  shows "unat ((of_nat k :: 32 word) * sizeofInt32) = 4 * k"
proof -
  have "unat (of_nat k :: 32 word) = k" using assms by (simp add: unat_of_nat)
  then show ?thesis using assms by (simp add: sizeofInt32_def unat_word_ariths)
qed

lemma unat_succ_index_times4:
  assumes "Suc k < 2 ^ 30"
  shows "unat (((of_nat k :: 32 word) + 1) * sizeofInt32) = 4 * k + 4"
  using unat_index_times4 [of "Suc k"] assms by (simp add: add.commute)

lemma diffMapEntry_encoded:
  assumes "k < length bs" "length bs < 2 ^ 30"
  shows "diffMapEntry (concat (map le32 bs)) (of_nat k) = Inr (bs ! k)"
proof -
  have k: "k < 2 ^ 30" and sk: "Suc k < 2 ^ 30" using assms by simp_all
  have len: "length (concat (map le32 bs)) = length bs * 4"
    using length_concat_uniform [of "map le32 bs" 4] by simp
  have chunk: "take 4 (drop (k * 4) (concat (map le32 bs))) = le32 (bs ! k)"
    using concat_chunk [of "map le32 bs" 4 k] assms by simp
  have "slice (concat (map le32 bs)) (4 * k) (4 * k + 4) = Inr (le32 (bs ! k))"
    using assms chunk len by (simp add: slice_def mult.commute)
  then show ?thesis
    by (simp add: diffMapEntry_def unat_index_times4 [OF k] unat_succ_index_times4 [OF sk]
        Uint32_le32)
qed

lemma int64_mul_small: "0 \<le> a \<Longrightarrow> 0 \<le> b \<Longrightarrow> a * b < 2 ^ 63 \<Longrightarrow> int64_mul a b = a * b"
  unfolding int64_mul_def by simp

lemma page_offset:
  assumes "j * DatabasePageSize < 2 ^ 63"
  shows "int64_mul (int j) (int DatabasePageSize) = int (j * DatabasePageSize)"
proof -
  have "int j * int DatabasePageSize < 2 ^ 63"
    using assms by (metis of_nat_mult of_nat_less_iff of_nat_numeral of_nat_power)
  then show ?thesis by (simp add: int64_mul_small)
qed

lemma nat_page [simp]: "nat (int j * int DatabasePageSize) = j * DatabasePageSize"
  by (simp add: nat_mult_distrib)

lemma page_nonneg [simp]: "\<not> int j * int DatabasePageSize < 0"
  by (simp add: not_less)

lemma length_putPage:
  assumes "length p = DatabasePageSize" "j * DatabasePageSize \<le> length f"
  shows "length (putPage f j p) = max (length f) (j * DatabasePageSize + DatabasePageSize)"
  using assms by (simp add: putPage_def)

lemma pageAt_putPage_same:
  assumes "length p = DatabasePageSize" "j * DatabasePageSize \<le> length f"
  shows "pageAt (putPage f j p) j = p"
  using assms by (simp add: putPage_def pageAt_def)

lemma drop_putPage:
  assumes "length p = DatabasePageSize" "j * DatabasePageSize \<le> length f" "j < n"
  shows "drop (n * DatabasePageSize) (putPage f j p) = drop (n * DatabasePageSize) f"
proof -
  from \<open>j < n\<close> have "Suc j \<le> n" by simp
  then have "Suc j * DatabasePageSize \<le> n * DatabasePageSize" by (rule mult_le_mono1)
  then obtain d where d: "n * DatabasePageSize = j * DatabasePageSize + DatabasePageSize + d"
    by (metis add.commute le_Suc_ex mult_Suc)
  show ?thesis using assms by (simp add: putPage_def d add.commute)
qed

lemma take_putPage:
  assumes "j * DatabasePageSize \<le> length f" "n \<le> j"
  shows "take (n * DatabasePageSize) (putPage f j p) = take (n * DatabasePageSize) f"
proof -
  from \<open>n \<le> j\<close> have "n * DatabasePageSize \<le> j * DatabasePageSize" by (rule mult_le_mono1)
  then show ?thesis using assms by (simp add: putPage_def min_def)
qed

lemma pageAt_putPage_other:
  assumes "length p = DatabasePageSize" "j * DatabasePageSize \<le> length f" "k \<noteq> j"
  shows "pageAt (putPage f j p) k = pageAt f k"
proof (cases "k < j")
  case True
  then have "Suc k \<le> j" by simp
  then have le: "Suc k * DatabasePageSize \<le> j * DatabasePageSize" by (rule mult_le_mono1)
  have "pageAt g k = drop (k * DatabasePageSize) (take (Suc k * DatabasePageSize) g)" for g
    by (simp add: pageAt_def drop_take)
  moreover have "take (Suc k * DatabasePageSize) (putPage f j p) = take (Suc k * DatabasePageSize) f"
    using take_putPage [OF assms(2) \<open>Suc k \<le> j\<close>] .
  ultimately show ?thesis by simp
next
  case False
  with \<open>k \<noteq> j\<close> have "j < k" by simp
  then show ?thesis
    using drop_putPage [OF assms(1,2) \<open>j < k\<close>] by (simp add: pageAt_def)
qed

lemma missing_header:
  "headerSize \<le> DatabasePageSize"
  by (simp add: headerSize_def DatabasePageSize_def)

lemma checkIfMissingPage_inside:
  assumes "j * DatabasePageSize + DatabasePageSize \<le> length f" "j * DatabasePageSize < 2 ^ 63"
  shows "checkIfMissingPage f (int j) = Inr (missingPage (pageAt f j))"
proof -
  have "take headerSize (drop (j * DatabasePageSize) f) = take headerSize (pageAt f j)"
    using missing_header by (simp add: pageAt_def min_def)
  moreover have "j * DatabasePageSize + headerSize \<le> length f"
    using assms(1) missing_header by linarith
  ultimately show ?thesis
    using assms(2)
    by (simp add: checkIfMissingPage_def ReadAt_def page_offset missingPage_def headerSize_def)
qed

lemma WriteAt_page:
  assumes "length p = DatabasePageSize" "j * DatabasePageSize \<le> length f" "j * DatabasePageSize < 2 ^ 63"
  shows "WriteAt f p (int64_mul (int j) (int DatabasePageSize)) = Inr (putPage f j p)"
proof -
  have "p \<noteq> []" using assms(1) by (auto simp: DatabasePageSize_def)
  then show ?thesis
    using assms by (simp add: WriteAt_def page_offset putPage_def)
qed

lemma writePage_overwrite:
  assumes "length p = DatabasePageSize" "j * DatabasePageSize \<le> length f" "j * DatabasePageSize < 2 ^ 63"
  shows "writePage f (int j) (p @ r) True = (None, putPage f j p, r)"
  using assms by (simp add: writePage_def ReadFull_append WriteAt_page)

lemma writePage_inside:
  assumes "length p = DatabasePageSize" "j * DatabasePageSize + DatabasePageSize \<le> length f"
    "j * DatabasePageSize < 2 ^ 63"
  shows "writePage f (int j) (p @ r) ow
           = (None, if ow \<or> missingPage (pageAt f j) then putPage f j p else f, r)"
proof -
  have "j * DatabasePageSize \<le> length f" using assms(2) by simp
  then show ?thesis
    using assms
    by (simp add: writePage_def ReadFull_append WriteAt_page checkIfMissingPage_inside)
qed

lemma page_pos: "0 < DatabasePageSize"
  by (simp add: DatabasePageSize_def)

lemma restoreLoop_stop:
  "\<not> i < n \<Longrightarrow> restoreLoop i n t r = (None, t, r)"
  by (subst restoreLoop.simps) simp

lemma restoreLoop_short:
  assumes "i < n" "length r < DatabasePageSize"
  shows "restoreLoop i n t r = (if r = [] then None else Some ErrUnexpectedEOF, t, [])"
  using assms by (subst restoreLoop.simps) (simp add: writePage_def ReadFull_def)

lemma restoreLoop_step:
  assumes "i < n" "length p = DatabasePageSize"
    "i * DatabasePageSize + DatabasePageSize \<le> length t" "i * DatabasePageSize < 2 ^ 63"
  shows "restoreLoop (int i) (int n) t (p @ r)
           = restoreLoop (int (Suc i)) (int n)
               (if missingPage (pageAt t i) then putPage t i p else t) r"
  using assms
  by (subst restoreLoop.simps) (simp add: writePage_inside add.commute)

lemma pageAt_drop_page:
  "pageAt (drop DatabasePageSize r) k = pageAt r (Suc k)"
  by (simp add: pageAt_def add.commute)

lemma pageAt_0: "pageAt r 0 = take DatabasePageSize r"
  by (simp add: pageAt_def)

lemma restoreLoop_spec:
  assumes "length t < 2 ^ 63" "n * DatabasePageSize \<le> length t" "i \<le> n"
  shows "\<exists>t' r'. restoreLoop (int i) (int n) t r
             = (if n - i \<le> length r div DatabasePageSize \<or> length r mod DatabasePageSize = 0
                then None else Some ErrUnexpectedEOF, t', r')
          \<and> length t' = length t
          \<and> drop (n * DatabasePageSize) t' = drop (n * DatabasePageSize) t
          \<and> drop ((i + min (n - i) (length r div DatabasePageSize)) * DatabasePageSize) t'
              = drop ((i + min (n - i) (length r div DatabasePageSize)) * DatabasePageSize) t
          \<and> (\<forall>j<n. pageAt t' j
                 = (if i \<le> j \<and> j - i < length r div DatabasePageSize \<and> missingPage (pageAt t j)
                    then pageAt r (j - i) else pageAt t j))"
  using assms
proof (induction "n - i" arbitrary: i t r)
  case 0
  then have "i = n" by simp
  then show ?case by (simp add: restoreLoop_stop)
next
  case (Suc m)
  then have lt: "i < n" and m: "m = n - Suc i" by simp_all
  from lt have "Suc i \<le> n" by simp
  then have "Suc i * DatabasePageSize \<le> n * DatabasePageSize" by (rule mult_le_mono1)
  with Suc.prems have inside: "i * DatabasePageSize + DatabasePageSize \<le> length t"
    by (simp add: add.commute)
  with Suc.prems have off: "i * DatabasePageSize < 2 ^ 63" by linarith
  show ?case
  proof (cases "length r < DatabasePageSize")
    case True
    then have "length r div DatabasePageSize = 0" and "length r mod DatabasePageSize = length r"
      by simp_all
    with True lt show ?thesis
      by (simp add: restoreLoop_short)
  next
    case False
    define p where "p = take DatabasePageSize r"
    define r1 where "r1 = drop DatabasePageSize r"
    define t1 where "t1 = (if missingPage (pageAt t i) then putPage t i p else t)"
    from False have lp: "length p = DatabasePageSize" and r: "r = p @ r1"
      by (simp_all add: p_def r1_def)
    have lr1: "length r1 = length r - DatabasePageSize" by (simp add: r1_def)
    from False have divr: "length r div DatabasePageSize = Suc (length r1 div DatabasePageSize)"
      and modr: "length r mod DatabasePageSize = length r1 mod DatabasePageSize"
      using page_pos by (simp_all add: lr1 le_div_geq le_mod_geq not_less)
    have lt1: "length t1 = length t"
      using inside lp by (simp add: t1_def length_putPage)
    have dt1: "drop (n * DatabasePageSize) t1 = drop (n * DatabasePageSize) t"
      using inside lp lt by (simp add: t1_def drop_putPage)
    have pt1: "pageAt t1 j = (if j = i \<and> missingPage (pageAt t i) then p else pageAt t j)" for j
      using inside lp by (simp add: t1_def pageAt_putPage_same pageAt_putPage_other)
    have step: "restoreLoop (int i) (int n) t r = restoreLoop (int (Suc i)) (int n) t1 r1"
      unfolding r t1_def using lt lp inside off by (rule restoreLoop_step)
    from Suc.hyps(1) [OF m, of t1 r1] Suc.prems lt1 \<open>Suc i \<le> n\<close>
    obtain t' r' where
      res: "restoreLoop (int (Suc i)) (int n) t1 r1
             = (if n - Suc i \<le> length r1 div DatabasePageSize \<or> length r1 mod DatabasePageSize = 0
                then None else Some ErrUnexpectedEOF, t', r')"
      and len: "length t' = length t1"
      and dr: "drop (n * DatabasePageSize) t' = drop (n * DatabasePageSize) t1"
      and dk: "drop ((Suc i + min (n - Suc i) (length r1 div DatabasePageSize)) * DatabasePageSize) t'
              = drop ((Suc i + min (n - Suc i) (length r1 div DatabasePageSize)) * DatabasePageSize) t1"
      and pg: "\<forall>j<n. pageAt t' j
                 = (if Suc i \<le> j \<and> j - Suc i < length r1 div DatabasePageSize \<and> missingPage (pageAt t1 j)
                    then pageAt r1 (j - Suc i) else pageAt t1 j)"
      by auto
    have cond: "(n - Suc i \<le> length r1 div DatabasePageSize \<or> length r1 mod DatabasePageSize = 0)
                 = (n - i \<le> length r div DatabasePageSize \<or> length r mod DatabasePageSize = 0)"
      using lt by (auto simp: divr modr)
    have pages: "pageAt t' j
                 = (if i \<le> j \<and> j - i < length r div DatabasePageSize \<and> missingPage (pageAt t j)
                    then pageAt r (j - i) else pageAt t j)" if "j < n" for j
    proof -
      consider "j < i" | "j = i" | "i < j" by linarith
      then show ?thesis
      proof cases
        case 1
        with pg that show ?thesis by (simp add: pt1)
      next
        case 2
        with pg that show ?thesis by (simp add: pt1 divr pageAt_0 p_def)
      next
        case 3
        then have "j - i = Suc (j - Suc i)" by simp
        with 3 pg that show ?thesis
          by (simp add: pt1 divr r1_def pageAt_drop_page)
      qed
    qed
    have k: "i + min (n - i) (length r div DatabasePageSize)
               = Suc i + min (n - Suc i) (length r1 div DatabasePageSize)"
      unfolding divr using lt by linarith
    have "drop ((Suc i + min (n - Suc i) (length r1 div DatabasePageSize)) * DatabasePageSize) t1
              = drop ((Suc i + min (n - Suc i) (length r1 div DatabasePageSize)) * DatabasePageSize) t"
      using inside lp by (simp add: t1_def drop_putPage del: mult_Suc)
    with dk k
    have early: "drop ((i + min (n - i) (length r div DatabasePageSize)) * DatabasePageSize) t'
              = drop ((i + min (n - i) (length r div DatabasePageSize)) * DatabasePageSize) t"
      by simp
    show ?thesis
      using step res cond len lt1 dr dt1 pages early by simp
  qed
qed

lemma getPageCount_eq: "getPageCount t = Inr (int (length t div DatabasePageSize))"
  by (simp add: getPageCount_def Stat_def zdiv_int)

lemma RestoreMissingPages_total:
  assumes "length target < 2 ^ 63"
  shows "\<exists>t'. RestoreMissingPages base target
             = (if length target div DatabasePageSize \<le> length base div DatabasePageSize
                     \<or> length base mod DatabasePageSize = 0
                then None else Some ErrUnexpectedEOF, t')
          \<and> length t' = length target
          \<and> drop (length target div DatabasePageSize * DatabasePageSize) t'
              = drop (length target div DatabasePageSize * DatabasePageSize) target
          \<and> drop (min (length target div DatabasePageSize) (length base div DatabasePageSize)
                    * DatabasePageSize) t'
              = drop (min (length target div DatabasePageSize) (length base div DatabasePageSize)
                    * DatabasePageSize) target
          \<and> (\<forall>j < length target div DatabasePageSize. pageAt t' j
                 = (if j < length base div DatabasePageSize \<and> missingPage (pageAt target j)
                    then pageAt base j else pageAt target j))"
proof -
  have "length target div DatabasePageSize * DatabasePageSize \<le> length target" by simp
  from restoreLoop_spec [OF assms this, of 0 base]
  show ?thesis
    by (auto simp: RestoreMissingPages_def getPageCount_eq)
qed

lemma pageAt_replicate:
  "pageAt (replicate n x) j = replicate (min DatabasePageSize (n - j * DatabasePageSize)) x"
  by (simp add: pageAt_def)

section \<open>Verification: \<open>RestoreMissingPages\<close>\<close>

text \<open>
  Claim C7, as the code has it. For every base stream and every target file (of a
  size an \<open>int64\<close> holds), \<open>RestoreMissingPages\<close> walks the blocks of the target from
  block 0 on, up to the last full page of the target or until the base stream has no
  full page left, whichever comes first. For block \<open>j\<close> of the walk it consumes the
  \<open>j\<close>-th page of the base stream, and writes it at the offset of the block when the
  first 8 bytes of the block are zero; otherwise the block stays as it is. The size of
  the target, the blocks the walk did not reach and the bytes behind the last full
  page do not change. When the base stream holds a page for every block, the walk
  ends behind the last block and the result is \<open>nil\<close>.
\<close>

theorem RestoreMissingPages_walk:
  assumes "length target < 2 ^ 63"
  shows "length (snd (RestoreMissingPages base target)) = length target
       \<and> (\<forall>j < length target div DatabasePageSize.
            pageAt (snd (RestoreMissingPages base target)) j
              = (if j < length base div DatabasePageSize \<and> missingPage (pageAt target j)
                 then pageAt base j else pageAt target j))
       \<and> drop (length target div DatabasePageSize * DatabasePageSize)
            (snd (RestoreMissingPages base target))
           = drop (length target div DatabasePageSize * DatabasePageSize) target
       \<and> (length target div DatabasePageSize \<le> length base div DatabasePageSize
            \<longrightarrow> fst (RestoreMissingPages base target) = None)"
  using RestoreMissingPages_total [OF assms, of base] by auto

text \<open>
  The theorem at a target of two missing pages and a base stream of two pages: both
  blocks receive their page and the result is \<open>nil\<close>.
\<close>

theorem RestoreMissingPages_walk_witness:
  "length (replicate 16384 (0 :: byte)) < 2 ^ 63
   \<and> pageAt (snd (RestoreMissingPages (replicate 16384 7) (replicate 16384 0))) 0 = replicate 8192 7
   \<and> pageAt (snd (RestoreMissingPages (replicate 16384 7) (replicate 16384 0))) 1 = replicate 8192 7
   \<and> fst (RestoreMissingPages (replicate 16384 7) (replicate 16384 0)) = None"
proof -
  have h: "length (replicate 16384 (0 :: byte)) < 2 ^ 63" by simp
  show ?thesis
    using h RestoreMissingPages_walk [OF h, of "replicate 16384 7"]
    by (simp add: pageAt_replicate missingPage_def DatabasePageSize_def headerSize_def)
qed

text \<open>
  Claim C7 as the spec words it fails: with a base stream of one page and a target of
  two missing pages, the call returns \<open>nil\<close> after the first block; the second block
  has a zero header, no page is consumed for it and it is left as it was.
\<close>

theorem RestoreMissingPages_short_base_counterexample:
  "RestoreMissingPages (replicate 8192 7) (replicate 16384 0)
     = (None, replicate 8192 7 @ replicate 8192 0)
   \<and> missingPage (pageAt (replicate 16384 0) 1)"
proof -
  have h: "length (replicate 16384 (0 :: byte)) < 2 ^ 63" by simp
  from RestoreMissingPages_total [OF h, of "replicate 8192 7"]
  obtain t' where r: "RestoreMissingPages (replicate 8192 7) (replicate 16384 0) = (None, t')"
    and d: "drop 8192 t' = replicate 8192 0"
    and p: "pageAt t' 0 = replicate 8192 7"
    by (auto simp: pageAt_replicate missingPage_def DatabasePageSize_def headerSize_def)
  have "t' = take 8192 t' @ drop 8192 t'" by simp
  also have "take 8192 t' = replicate 8192 7" using p by (simp add: pageAt_def DatabasePageSize_def)
  finally have "RestoreMissingPages (replicate 8192 7) (replicate 16384 0)
     = (None, replicate 8192 7 @ replicate 8192 0)"
    using r d by simp
  moreover have "missingPage (pageAt (replicate 16384 0) 1)"
    by (simp add: pageAt_replicate missingPage_def DatabasePageSize_def headerSize_def)
  ultimately show ?thesis by (rule conjI)
qed

text \<open>
  Claim C10, as the code has it. For every target file and every base stream made of
  whole pages (its length is a multiple of 8192) that holds fewer pages than the
  target has blocks, \<open>RestoreMissingPages\<close> returns \<open>nil\<close>: the end of the stream at a
  page boundary ends the walk, and the target from the first block without a base
  page on is left as it was.
\<close>

theorem RestoreMissingPages_base_exhausted:
  assumes "length target < 2 ^ 63"
    and "length base mod DatabasePageSize = 0"
    and "length base div DatabasePageSize < length target div DatabasePageSize"
  shows "fst (RestoreMissingPages base target) = None
       \<and> length (snd (RestoreMissingPages base target)) = length target
       \<and> drop (length base div DatabasePageSize * DatabasePageSize)
            (snd (RestoreMissingPages base target))
           = drop (length base div DatabasePageSize * DatabasePageSize) target"
  using RestoreMissingPages_total [OF assms(1), of base] assms(2,3) by (auto simp: min_def)

theorem RestoreMissingPages_base_exhausted_witness:
  "length (replicate 16384 (0 :: byte)) < 2 ^ 63
   \<and> length (replicate 8192 (7 :: byte)) mod DatabasePageSize = 0
   \<and> length (replicate 8192 (7 :: byte)) div DatabasePageSize
       < length (replicate 16384 (0 :: byte)) div DatabasePageSize
   \<and> fst (RestoreMissingPages (replicate 8192 7) (replicate 16384 0)) = None
   \<and> drop 8192 (snd (RestoreMissingPages (replicate 8192 7) (replicate 16384 0)))
       = replicate 8192 0"
proof -
  have h1: "length (replicate 16384 (0 :: byte)) < 2 ^ 63" by simp
  have h2: "length (replicate 8192 (7 :: byte)) mod DatabasePageSize = 0"
    by (simp add: DatabasePageSize_def)
  have h3: "length (replicate 8192 (7 :: byte)) div DatabasePageSize
       < length (replicate 16384 (0 :: byte)) div DatabasePageSize"
    by (simp add: DatabasePageSize_def)
  show ?thesis
    using h1 h2 h3 RestoreMissingPages_base_exhausted [OF h1 h2 h3]
    by (simp add: DatabasePageSize_def)
qed

text \<open>
  Claim C10 as the spec words it fails: a base stream of one byte holds fewer pages
  (none) than a target of one block, and the call returns \<open>io.ErrUnexpectedEOF\<close>,
  not \<open>nil\<close>.
\<close>

theorem RestoreMissingPages_partial_page_counterexample:
  "length [1 :: byte] div DatabasePageSize < length (replicate 8192 (0 :: byte)) div DatabasePageSize
   \<and> RestoreMissingPages [1] (replicate 8192 0) = (Some ErrUnexpectedEOF, replicate 8192 0)"
proof -
  have h: "length (replicate 8192 (0 :: byte)) < 2 ^ 63" by simp
  from RestoreMissingPages_total [OF h, of "[1]"]
  show ?thesis
    by (auto simp: DatabasePageSize_def)
qed

lemma word32_of_nat_less:
  assumes "k < n" "n < 2 ^ 32"
  shows "(of_nat k :: 32 word) < of_nat n"
  using assms by (simp add: word_of_nat_less_iff take_bit_nat_eq_self)

lemma writePagesLoop_entries:
  assumes "\<forall>k<length bs. diffMapEntry dm (of_nat k) = Inr (bs ! k)"
    and "length bs = unat cnt" and "k \<le> length bs"
  shows "writePagesLoop (of_nat k) cnt dm tpc ow t r = writeEntries (drop k bs) tpc ow t r"
  using assms(3)
proof (induction "length bs - k" arbitrary: k t r)
  case 0
  then have "k = length bs" by simp
  then have "(of_nat k :: 32 word) = cnt" using assms(2) by simp
  then show ?case using \<open>k = length bs\<close>
    by (subst writePagesLoop.simps) simp
next
  case (Suc m)
  then have lt: "k < length bs" and m: "m = length bs - Suc k" by simp_all
  have "length bs < 2 ^ 32" using assms(2) unsigned_less [of cnt] by simp
  with lt have "(of_nat k :: 32 word) < of_nat (length bs)" by (rule word32_of_nat_less)
  then have less: "(of_nat k :: 32 word) < cnt" using assms(2) by simp
  have entry: "diffMapEntry dm (of_nat k) = Inr (bs ! k)" using assms(1) lt by simp
  have dr: "drop k bs = bs ! k # drop (Suc k) bs" using lt by (simp add: Cons_nth_drop_Suc)
  have next_index: "(of_nat k :: 32 word) + 1 = of_nat (Suc k)" by simp
  from lt have sk: "Suc k \<le> length bs" by simp
  have IH: "writePagesLoop (of_nat k + 1) cnt dm tpc ow t' r'
              = writeEntries (drop (Suc k) bs) tpc ow t' r'" for t' r'
    using Suc.hyps(1) [OF m sk, of t' r'] by (simp add: add.commute)
  show ?case
    apply (subst writePagesLoop.simps)
    apply (simp only: less entry dr if_True sum.case Let_def writeEntries.simps)
    apply (simp add: IH split: sum.split prod.split option.split)
    done
qed

lemma block32_offset: "unat (w :: 32 word) * DatabasePageSize < 2 ^ 63"
proof -
  have "unat w < 2 ^ 32" using unsigned_less [of w] by simp
  then have "unat w * DatabasePageSize < 2 ^ 32 * 8192"
    by (simp add: DatabasePageSize_def)
  then show ?thesis by simp
qed

lemma writePage_short:
  "\<not> DatabasePageSize \<le> length r \<Longrightarrow>
     writePage t b r ow = (Some (if r = [] then EOF else ErrUnexpectedEOF), t, [])"
  by (simp add: writePage_def ReadFull_def)

lemma writePage_block:
  assumes "j < n" "n * DatabasePageSize \<le> length t" "j * DatabasePageSize < 2 ^ 63"
    and "DatabasePageSize \<le> length r"
  shows "writePage t (int j) r ow
           = (None, if ow \<or> missingPage (pageAt t j) then putPage t j (take DatabasePageSize r) else t,
              drop DatabasePageSize r)"
proof -
  from \<open>j < n\<close> have "Suc j \<le> n" by simp
  then have "Suc j * DatabasePageSize \<le> n * DatabasePageSize" by (rule mult_le_mono1)
  with assms(2) have inside: "j * DatabasePageSize + DatabasePageSize \<le> length t"
    by (simp add: add.commute)
  have "length (take DatabasePageSize r) = DatabasePageSize" using assms(4) by simp
  from writePage_inside [OF this inside assms(3), of "drop DatabasePageSize r" ow]
  show ?thesis by simp
qed

lemma inside_block:
  assumes "j < n" "n * DatabasePageSize \<le> length t"
  shows "j * DatabasePageSize + DatabasePageSize \<le> length t"
proof -
  from \<open>j < n\<close> have "Suc j \<le> n" by simp
  then have "Suc j * DatabasePageSize \<le> n * DatabasePageSize" by (rule mult_le_mono1)
  with assms(2) show ?thesis by (simp add: add.commute)
qed

lemma writeEntries_result:
  assumes "n * DatabasePageSize \<le> length t"
  shows "if length ws * DatabasePageSize \<le> length r
         then \<exists>t'. writeEntries ws (int n) ow t r = (None, t', drop (length ws * DatabasePageSize) r)
                  \<and> length t' = length t
         else fst (writeEntries ws (int n) ow t r) \<in> {Some EOF, Some ErrUnexpectedEOF}"
  using assms
proof (induction ws arbitrary: t r)
  case Nil
  then show ?case by simp
next
  case (Cons w ws)
  show ?case
  proof (cases "DatabasePageSize \<le> length r")
    case False
    then have "\<not> length (w # ws) * DatabasePageSize \<le> length r" by simp
    with False show ?thesis
      by (simp add: writePage_short CopyN_Discard_def)
  next
    case True
    define r1 where "r1 = drop DatabasePageSize r"
    have eq: "(length (w # ws) * DatabasePageSize \<le> length r)
               = (length ws * DatabasePageSize \<le> length r1)"
      using True by (auto simp: r1_def)
    have dd: "drop (length (w # ws) * DatabasePageSize) r = drop (length ws * DatabasePageSize) r1"
      by (simp add: r1_def add.commute)
    show ?thesis
    proof (cases "uint w \<ge> int n")
      case skip: True
      then have step: "writeEntries (w # ws) (int n) ow t r = writeEntries ws (int n) ow t r1"
        using True by (simp add: CopyN_Discard_def r1_def)
      show ?thesis
        unfolding step eq dd by (rule Cons.IH [OF Cons.prems])
    next
      case False
      then have j: "unat w < n" by (simp only: uint_nat not_le of_nat_less_iff)
      define t1 where "t1 = (if ow \<or> missingPage (pageAt t (unat w))
                              then putPage t (unat w) (take DatabasePageSize r) else t)"
      have wp: "writePage t (uint w) r ow = (None, t1, r1)"
        using writePage_block [OF j Cons.prems block32_offset True, of ow]
        unfolding uint_nat t1_def r1_def .
      have lt1: "length t1 = length t"
        using inside_block [OF j Cons.prems] True by (simp add: t1_def length_putPage)
      then have "n * DatabasePageSize \<le> length t1" using Cons.prems by simp
      note IH = Cons.IH [OF this, of r1]
      have step: "writeEntries (w # ws) (int n) ow t r = writeEntries ws (int n) ow t1 r1"
        by (simp only: writeEntries.simps False if_False wp prod.case option.case)
      show ?thesis
        unfolding step eq dd lt1 [symmetric] by (rule IH)
    qed
  qed
qed

lemma missingPage_putPage_other:
  assumes "length p = DatabasePageSize" "j * DatabasePageSize \<le> length f" "k \<noteq> j"
  shows "missingPage (pageAt (putPage f j p) k) = missingPage (pageAt f k)"
  using pageAt_putPage_other [OF assms] by simp

lemma writeEntries_pages:
  assumes "n * DatabasePageSize \<le> length t" "length ps = length ws"
    "\<forall>p\<in>set ps. length p = DatabasePageSize" "distinct ws"
  shows "\<exists>t'. writeEntries ws (int n) ow t (concat ps @ extra) = (None, t', extra)
          \<and> length t' = length t
          \<and> drop (n * DatabasePageSize) t' = drop (n * DatabasePageSize) t
          \<and> (\<forall>j<n. pageAt t' j
                = (case map_of (zip (map unat ws) ps) j of
                     Some p \<Rightarrow> if ow \<or> missingPage (pageAt t j) then p else pageAt t j
                   | None \<Rightarrow> pageAt t j))"
  using assms
proof (induction ws arbitrary: ps t)
  case Nil
  then show ?case by simp
next
  case (Cons w ws)
  then obtain p ps' where ps: "ps = p # ps'" by (cases ps) auto
  with Cons.prems have lp: "length p = DatabasePageSize" and lps: "length ps' = length ws"
    and all: "\<forall>p\<in>set ps'. length p = DatabasePageSize" and dist: "distinct ws"
    and notin: "w \<notin> set ws"
    by simp_all
  have fresh: "map_of (zip (map unat ws) ps') (unat w) = None"
  proof -
    have "unat w \<notin> set (map unat ws)" using notin by (auto dest: word_unat_eq_iff [THEN iffD2])
    moreover have "map fst (zip (map unat ws) ps') = map unat ws"
      using lps by simp
    then have "fst ` set (zip (map unat ws) ps') = set (map unat ws)"
      by (metis set_map)
    ultimately show ?thesis by (simp only: map_of_eq_None_iff not_False_eq_True)
  qed
  define r where "r = concat ps @ extra"
  have rlen: "DatabasePageSize \<le> length r" and tk: "take DatabasePageSize r = p"
    and dr: "drop DatabasePageSize r = concat ps' @ extra"
    using lp by (simp_all add: r_def ps)
  show ?case
  proof (cases "uint w \<ge> int n")
    case True
    then have ge: "n \<le> unat w" by (simp only: uint_nat of_nat_le_iff)
    have step: "writeEntries (w # ws) (int n) ow t r = writeEntries ws (int n) ow t (concat ps' @ extra)"
      using True rlen dr by (simp add: CopyN_Discard_def)
    from Cons.IH [OF Cons.prems(1) lps all dist]
    obtain t' where res: "writeEntries ws (int n) ow t (concat ps' @ extra) = (None, t', extra)"
      and len: "length t' = length t"
      and drp: "drop (n * DatabasePageSize) t' = drop (n * DatabasePageSize) t"
      and pg: "\<forall>j<n. pageAt t' j
                = (case map_of (zip (map unat ws) ps') j of
                     Some p \<Rightarrow> if ow \<or> missingPage (pageAt t j) then p else pageAt t j
                   | None \<Rightarrow> pageAt t j)"
      by blast
    have "\<forall>j<n. map_of (zip (map unat (w # ws)) ps) j = map_of (zip (map unat ws) ps') j"
      using ge by (auto simp: ps)
    with pg have pg': "\<forall>j<n. pageAt t' j
                = (case map_of (zip (map unat (w # ws)) ps) j of
                     Some p \<Rightarrow> if ow \<or> missingPage (pageAt t j) then p else pageAt t j
                   | None \<Rightarrow> pageAt t j)"
      by simp
    have final: "writeEntries (w # ws) (int n) ow t (concat ps @ extra) = (None, t', extra)"
      by (simp only: step [unfolded r_def] res)
    show ?thesis
      by (rule exI [of _ t']) (rule conjI final len drp pg')+
  next
    case False
    then have j: "unat w < n" by (simp only: uint_nat not_le of_nat_less_iff)
    define t1 where "t1 = (if ow \<or> missingPage (pageAt t (unat w)) then putPage t (unat w) p else t)"
    have inside: "unat w * DatabasePageSize + DatabasePageSize \<le> length t"
      using inside_block [OF j Cons.prems(1)] .
    then have start: "unat w * DatabasePageSize \<le> length t" by simp
    have wp: "writePage t (uint w) r ow = (None, t1, concat ps' @ extra)"
      using writePage_block [OF j Cons.prems(1) block32_offset rlen, of ow]
      unfolding uint_nat t1_def tk dr .
    have lt1: "length t1 = length t"
      using inside lp by (simp add: t1_def length_putPage)
    have dt1: "drop (n * DatabasePageSize) t1 = drop (n * DatabasePageSize) t"
      using start lp j by (simp add: t1_def drop_putPage)
    have same: "pageAt t1 (unat w) = (if ow \<or> missingPage (pageAt t (unat w)) then p else pageAt t (unat w))"
      using start lp by (simp add: t1_def pageAt_putPage_same)
    have other: "pageAt t1 k = pageAt t k" if "k \<noteq> unat w" for k
      using start lp that by (simp add: t1_def pageAt_putPage_other)
    have step: "writeEntries (w # ws) (int n) ow t r = writeEntries ws (int n) ow t1 (concat ps' @ extra)"
      by (simp only: writeEntries.simps False if_False wp prod.case option.case)
    have "n * DatabasePageSize \<le> length t1" using Cons.prems(1) lt1 by simp
    from Cons.IH [OF this lps all dist]
    obtain t' where res: "writeEntries ws (int n) ow t1 (concat ps' @ extra) = (None, t', extra)"
      and len: "length t' = length t1"
      and drp: "drop (n * DatabasePageSize) t' = drop (n * DatabasePageSize) t1"
      and pg: "\<forall>j<n. pageAt t' j
                = (case map_of (zip (map unat ws) ps') j of
                     Some p \<Rightarrow> if ow \<or> missingPage (pageAt t1 j) then p else pageAt t1 j
                   | None \<Rightarrow> pageAt t1 j)"
      by blast
    have "pageAt t' k
                = (case map_of (zip (map unat (w # ws)) ps) k of
                     Some p \<Rightarrow> if ow \<or> missingPage (pageAt t k) then p else pageAt t k
                   | None \<Rightarrow> pageAt t k)" if "k < n" for k
    proof (cases "k = unat w")
      case True
      with pg that fresh same show ?thesis by (simp add: ps)
    next
      case False
      with pg that other [OF False] show ?thesis by (simp add: ps split: option.split)
    qed
    then have pg': "\<forall>j<n. pageAt t' j
                = (case map_of (zip (map unat (w # ws)) ps) j of
                     Some p \<Rightarrow> if ow \<or> missingPage (pageAt t j) then p else pageAt t j
                   | None \<Rightarrow> pageAt t j)"
      by blast
    have final: "writeEntries (w # ws) (int n) ow t (concat ps @ extra) = (None, t', extra)"
      by (simp only: step [unfolded r_def] res)
    have len': "length t' = length t" using len lt1 by simp
    have drp': "drop (n * DatabasePageSize) t' = drop (n * DatabasePageSize) t"
      using drp dt1 by simp
    show ?thesis
      by (rule exI [of _ t']) (rule conjI final len' drp' pg')+
  qed
qed

lemma length_encoded_diffMap: "length (concat (map le32 bs)) = 4 * length bs"
  using length_concat_uniform [of "map le32 bs" 4] by simp

lemma getIncrementHeaderFields_encoded:
  assumes "rih inc = Inr (le64 fs @ le32 (of_nat (length bs)) @ concat (map le32 bs) @ payload)"
    and "length bs < 2 ^ 30"
  shows "getIncrementHeaderFields rih inc
           = Inr (fs, of_nat (length bs), concat (map le32 bs), payload)"
  using assms
  by (simp add: getIncrementHeaderFields_def Parse_encoded unat_index_times4
      ReadFull_append length_encoded_diffMap)

lemma getIncrementHeaderFields_length:
  assumes "getIncrementHeaderFields rih inc = Inr (fs, cnt, dm, r)"
  shows "length dm = unat (cnt * sizeofInt32)"
  using assms
  by (auto simp: getIncrementHeaderFields_def ReadFull_def split: sum.splits if_splits)

lemma unat_count_times4:
  "unat ((cnt :: 32 word) * sizeofInt32) = 4 * (unat cnt mod 2 ^ 30)"
proof -
  have "unat (cnt * sizeofInt32) = (unat cnt * 4) mod (4 * 2 ^ 30)"
    by (simp add: unat_word_ariths sizeofInt32_def)
  also have "\<dots> = 4 * (unat cnt mod 2 ^ 30)"
    by (simp only: mult.commute [of "unat cnt" 4] mult_mod_right)
  finally show ?thesis .
qed

lemma diffMapEntry_inside:
  assumes "4 * k + 4 \<le> length dm" "Suc k < 2 ^ 30"
  shows "\<exists>w. diffMapEntry dm (of_nat k) = Inr w"
proof -
  have k: "k < 2 ^ 30" using assms(2) by simp
  have "slice dm (4 * k) (4 * k + 4) = Inr (take 4 (drop (4 * k) dm))"
    using assms by (simp add: slice_def)
  moreover have "length (take 4 (drop (4 * k) dm)) = 4" using assms by simp
  ultimately show ?thesis
    by (simp add: diffMapEntry_def unat_index_times4 [OF k]
        unat_succ_index_times4 [OF assms(2)] Uint32_def)
qed

lemma diffMap_decodable:
  assumes "length dm = 4 * n" "n < 2 ^ 30"
  shows "\<exists>bs. length bs = n \<and> (\<forall>k<n. diffMapEntry dm (of_nat k) = Inr (bs ! k))"
proof -
  have "\<forall>k. \<exists>w. k < n \<longrightarrow> diffMapEntry dm (of_nat k) = Inr w"
    using diffMapEntry_inside [of _ dm] assms by (metis Suc_leI le_less_trans mult_Suc_right
        mult_le_mono2 add.commute)
  then obtain f where f: "\<forall>k. k < n \<longrightarrow> diffMapEntry dm (of_nat k) = Inr (f k)"
    by metis
  then have "length (map f [0..<n]) = n \<and> (\<forall>k<n. diffMapEntry dm (of_nat k) = Inr (map f [0..<n] ! k))"
    by simp
  then show ?thesis by blast
qed

lemma diffMapEntry_panics:
  assumes "length dm = 4 * q" "q < 2 ^ 30"
  shows "diffMapEntry dm (of_nat q) = Inl SliceBoundsPanic"
proof (cases "Suc q < 2 ^ 30")
  case True
  show ?thesis
    using assms
    by (simp add: diffMapEntry_def slice_def unat_index_times4 [OF assms(2)]
        unat_succ_index_times4 [OF True])
next
  case False
  with assms(2) have q: "q = 2 ^ 30 - 1" by simp
  have "((of_nat q :: 32 word) + 1) * sizeofInt32 = 0"
    by (simp add: q sizeofInt32_def)
  then have hi: "unat (((of_nat q :: 32 word) + 1) * sizeofInt32) = 0" by simp
  have lo: "unat ((of_nat q :: 32 word) * sizeofInt32) = 4 * q"
    by (rule unat_index_times4 [OF assms(2)])
  have "0 < q" using q by simp
  then show ?thesis
    unfolding diffMapEntry_def lo hi slice_def by simp
qed

lemma writePagesLoop_panics:
  assumes "length dm = unat (cnt * sizeofInt32)" "2 ^ 30 \<le> unat cnt" "k \<le> length dm div 4"
  shows "fst (writePagesLoop (of_nat k) cnt dm tpc ow t r) \<noteq> None"
  using assms(3)
proof (induction "length dm div 4 - k" arbitrary: k t r)
  case 0
  define q where "q = unat cnt mod 2 ^ 30"
  have len: "length dm = 4 * q" using assms(1) by (simp add: unat_count_times4 q_def)
  have q: "q < 2 ^ 30" by (simp add: q_def)
  from 0 len have "k = q" by simp
  have "unat (of_nat q :: 32 word) = q" using q by (simp add: unat_of_nat)
  then have less: "(of_nat q :: 32 word) < cnt"
    using q assms(2) by (simp add: word_less_nat_alt)
  show ?case
    unfolding \<open>k = q\<close>
    by (subst writePagesLoop.simps) (simp add: less diffMapEntry_panics [OF len q])
next
  case (Suc m)
  define q where "q = unat cnt mod 2 ^ 30"
  have len: "length dm = 4 * q" using assms(1) by (simp add: unat_count_times4 q_def)
  have q: "q < 2 ^ 30" by (simp add: q_def)
  from Suc len have kq: "k < q" and m: "m = length dm div 4 - Suc k" and sk: "Suc k \<le> length dm div 4"
    by simp_all
  have "unat (of_nat k :: 32 word) = k" using q kq by (simp add: unat_of_nat)
  then have less: "(of_nat k :: 32 word) < cnt"
    using q kq assms(2) by (simp add: word_less_nat_alt)
  have IH: "\<exists>y. fst (writePagesLoop (of_nat k + 1) cnt dm tpc ow t' r') = Some y" for t' r'
    using Suc.hyps(1) [OF m sk, of t' r'] by (simp add: add.commute)
  show ?case
    apply (subst writePagesLoop.simps)
    apply (simp only: less if_True Let_def)
    apply (simp add: IH split: sum.split prod.split option.split)
    done
qed

lemma isTarReaderEmpty_iff: "isTarReaderEmpty r = (r = [])"
  by (cases r) (simp_all add: isTarReaderEmpty_def)

lemma writePagesLoop_start:
  assumes "\<forall>k<length bs. diffMapEntry dm (of_nat k) = Inr (bs ! k)" "length bs = unat cnt"
  shows "writePagesLoop 0 cnt dm tpc ow t r = writeEntries bs tpc ow t r"
  using writePagesLoop_entries [OF assms, of 0 tpc ow t r] by simp

lemma unat_count32: "n < 2 ^ 30 \<Longrightarrow> unat (of_nat n :: 32 word) = n"
  by (simp add: unat_of_nat)

lemma distinct_unat: "distinct (bs :: 32 word list) \<Longrightarrow> distinct (map unat bs)"
  by (simp add: distinct_map inj_on_def word_unat_eq_iff)

lemma map_of_blocks_nth:
  assumes "length ps = length bs" "distinct (bs :: 32 word list)" "k < length bs"
  shows "map_of (zip (map unat bs) ps) (unat (bs ! k)) = Some (ps ! k)"
  using map_of_zip_nth [of "map unat bs" ps k] assms distinct_unat by simp

lemma map_of_blocks_none:
  assumes "length ps = length bs" "j \<notin> unat ` set bs"
  shows "map_of (zip (map unat bs) ps) j = None"
proof -
  have "map fst (zip (map unat bs) ps) = map unat bs" using assms(1) by simp
  then have "fst ` set (zip (map unat bs) ps) = set (map unat bs)" by (metis set_map)
  with assms(2) show ?thesis by (simp only: map_of_eq_None_iff set_map not_False_eq_True)
qed

lemma exampleReader_accepts: "exampleReader (exampleHeader @ r) = Inr r"
  by (simp add: exampleReader_def exampleHeader_def ReadIncrementFileHeader_def ReadFull_def)

section \<open>Verification: \<open>WritePagesFromIncrement\<close>\<close>

text \<open>
  Claim C6. Take a well-formed increment: a header the header reader accepts, the file
  size, the count and the block numbers of the diffMap (fewer than \<open>2^30\<close>, no block
  number twice, as in every strictly ascending map) and one page body of 8192 bytes for
  each of them. For every existing target, with \<open>targetPageCount\<close> its size divided by
  the page size, \<open>WritePagesFromIncrement\<close> returns \<open>nil\<close> and changes the target at
  the pages listed in the diffMap only: the page of the \<open>k\<close>-th entry, when its block
  number is below \<open>targetPageCount\<close>, holds the \<open>k\<close>-th page body (or, when existing
  pages are not to be overwritten and the page is not a missing one, what it held
  before); every page not listed is as it was; the size of the target and the bytes
  behind its last full page are as they were, so an entry with a block number of
  \<open>targetPageCount\<close> or more has its body consumed and nothing written for it.
\<close>

theorem WritePagesFromIncrement_patches:
  assumes "rih increment
             = Inr (le64 fileSize @ le32 (of_nat (length blockNos)) @ concat (map le32 blockNos)
                    @ concat pages)"
    and "length pages = length blockNos" and "length blockNos < 2 ^ 30"
    and "\<forall>p\<in>set pages. length p = DatabasePageSize"
    and "distinct blockNos"
  shows "fst (WritePagesFromIncrement rih increment target ow) = None
       \<and> length (snd (WritePagesFromIncrement rih increment target ow)) = length target
       \<and> drop (length target div DatabasePageSize * DatabasePageSize)
            (snd (WritePagesFromIncrement rih increment target ow))
           = drop (length target div DatabasePageSize * DatabasePageSize) target
       \<and> (\<forall>k<length blockNos. unat (blockNos ! k) < length target div DatabasePageSize \<longrightarrow>
            pageAt (snd (WritePagesFromIncrement rih increment target ow)) (unat (blockNos ! k))
              = (if ow \<or> missingPage (pageAt target (unat (blockNos ! k))) then pages ! k
                 else pageAt target (unat (blockNos ! k))))
       \<and> (\<forall>j<length target div DatabasePageSize. j \<notin> unat ` set blockNos \<longrightarrow>
            pageAt (snd (WritePagesFromIncrement rih increment target ow)) j = pageAt target j)"
proof -
  define n where "n = length target div DatabasePageSize"
  define cnt :: "32 word" where "cnt = of_nat (length blockNos)"
  have hdr: "getIncrementHeaderFields rih increment
           = Inr (fileSize, cnt, concat (map le32 blockNos), concat pages)"
    unfolding cnt_def
    using getIncrementHeaderFields_encoded [of rih increment fileSize blockNos "concat pages"] assms(1,3)
    by simp
  have lbs: "length blockNos = unat cnt" using assms(3) by (simp add: cnt_def unat_count32)
  have dec: "\<forall>k<length blockNos. diffMapEntry (concat (map le32 blockNos)) (of_nat k) = Inr (blockNos ! k)"
    using diffMapEntry_encoded assms(3) by blast
  have loop: "writePagesLoop 0 cnt (concat (map le32 blockNos)) (int n) ow target (concat pages)
               = writeEntries blockNos (int n) ow target (concat pages @ [])"
    using writePagesLoop_start [OF dec lbs] by simp
  have inside: "n * DatabasePageSize \<le> length target" by (simp add: n_def)
  from writeEntries_pages [OF inside assms(2,4,5), of ow "[]"]
  obtain t' where res: "writeEntries blockNos (int n) ow target (concat pages @ []) = (None, t', [])"
    and len: "length t' = length target"
    and drp: "drop (n * DatabasePageSize) t' = drop (n * DatabasePageSize) target"
    and pg: "\<forall>j<n. pageAt t' j
                = (case map_of (zip (map unat blockNos) pages) j of
                     Some p \<Rightarrow> if ow \<or> missingPage (pageAt target j) then p else pageAt target j
                   | None \<Rightarrow> pageAt target j)"
    by blast
  have res': "writeEntries blockNos (int n) ow target (concat pages) = (None, t', [])"
    using res by simp
  have R: "WritePagesFromIncrement rih increment target ow = (None, t')"
    by (simp add: WritePagesFromIncrement_def hdr getPageCount_eq n_def [symmetric] loop res'
        isTarReaderEmpty_iff)
  have listed: "pageAt t' (unat (blockNos ! k))
              = (if ow \<or> missingPage (pageAt target (unat (blockNos ! k))) then pages ! k
                 else pageAt target (unat (blockNos ! k)))"
    if "k < length blockNos" "unat (blockNos ! k) < n" for k
    using pg that map_of_blocks_nth [OF assms(2,5) that(1)] by simp
  have unlisted: "pageAt t' j = pageAt target j" if "j < n" "j \<notin> unat ` set blockNos" for j
    using pg that map_of_blocks_none [OF assms(2) that(2)] by simp
  show ?thesis
    unfolding R n_def [symmetric] using len drp listed unlisted by simp
qed

text \<open>
  The theorem at a target of two pages and three more bytes, and an increment with the
  entries 1 and 5: page 1 receives the first body, the body of entry 5 is discarded.
\<close>

theorem WritePagesFromIncrement_patches_witness:
  "exampleReader (exampleHeader @ le64 24576 @ le32 2 @ le32 1 @ le32 5
                    @ replicate 8192 7 @ replicate 8192 9)
     = Inr (le64 24576 @ le32 (of_nat (length [1, 5 :: 32 word])) @ concat (map le32 [1, 5])
            @ concat [replicate 8192 7, replicate 8192 9])
   \<and> length [replicate 8192 (7 :: byte), replicate 8192 9] = length [1, 5 :: 32 word]
   \<and> length [1, 5 :: 32 word] < 2 ^ 30
   \<and> length (replicate 8192 (7 :: byte)) = DatabasePageSize
   \<and> length (replicate 8192 (9 :: byte)) = DatabasePageSize
   \<and> distinct [1, 5 :: 32 word]
   \<and> WritePagesFromIncrement exampleReader
        (exampleHeader @ le64 24576 @ le32 2 @ le32 1 @ le32 5 @ replicate 8192 7 @ replicate 8192 9)
        (replicate 16384 3 @ [1, 2, 3]) True
       = (None, replicate 8192 3 @ replicate 8192 7 @ [1, 2, 3])"
proof -
  define inc :: reader where
    "inc = exampleHeader @ le64 24576 @ le32 2 @ le32 1 @ le32 5 @ replicate 8192 7 @ replicate 8192 9"
  define target :: File where "target = replicate 16384 3 @ [1, 2, 3]"
  have h1: "exampleReader inc
     = Inr (le64 24576 @ le32 (of_nat (length [1, 5 :: 32 word])) @ concat (map le32 [1, 5])
            @ concat [replicate 8192 7, replicate 8192 9])"
    by (simp add: inc_def exampleReader_accepts)
  have h2: "length [replicate 8192 (7 :: byte), replicate 8192 9] = length [1, 5 :: 32 word]" by simp
  have h3: "length [1, 5 :: 32 word] < 2 ^ 30" by simp
  have h4: "\<forall>p\<in>set [replicate 8192 (7 :: byte), replicate 8192 9]. length p = DatabasePageSize"
    by (simp add: DatabasePageSize_def)
  have h5: "distinct [1, 5 :: 32 word]" by simp
  note c = WritePagesFromIncrement_patches
    [of exampleReader inc 24576 "[1, 5]" "[replicate 8192 7, replicate 8192 9]" target True,
     OF h1 h2 h3 h4 h5]
  define t' where "t' = snd (WritePagesFromIncrement exampleReader inc target True)"
  have n: "length target div DatabasePageSize = 2" by (simp add: target_def DatabasePageSize_def)
  have r: "fst (WritePagesFromIncrement exampleReader inc target True) = None"
    using c by simp
  have len: "length t' = 16387" using c by (simp add: t'_def target_def)
  have tail: "drop 16384 t' = [1, 2, 3]"
    using c by (simp add: t'_def n target_def DatabasePageSize_def)
  have p1: "pageAt t' 1 = replicate 8192 7"
    using c [THEN conjunct2, THEN conjunct2, THEN conjunct2, THEN conjunct1, rule_format, of 0]
    by (simp add: t'_def n)
  have p0: "pageAt t' 0 = replicate 8192 3"
    using c [THEN conjunct2, THEN conjunct2, THEN conjunct2, THEN conjunct2, rule_format, of 0]
    by (simp add: t'_def n target_def pageAt_def DatabasePageSize_def)
  have "drop 8192 t' = take 8192 (drop 8192 t') @ drop 8192 (drop 8192 t')"
    by (simp only: append_take_drop_id)
  then have "drop 8192 t' = pageAt t' 1 @ drop 16384 t'"
    by (simp add: pageAt_def DatabasePageSize_def)
  moreover have "t' = take 8192 t' @ drop 8192 t'" by (simp only: append_take_drop_id)
  moreover have "take 8192 t' = pageAt t' 0" by (simp add: pageAt_def DatabasePageSize_def)
  ultimately have "t' = replicate 8192 3 @ replicate 8192 7 @ [1, 2, 3]"
    using p0 p1 tail by simp
  with r have "WritePagesFromIncrement exampleReader inc target True
       = (None, replicate 8192 3 @ replicate 8192 7 @ [1, 2, 3])"
    unfolding t'_def by (metis prod.collapse)
  moreover have "length (replicate 8192 (7 :: byte)) = DatabasePageSize"
    and "length (replicate 8192 (9 :: byte)) = DatabasePageSize"
    by (simp_all add: DatabasePageSize_def)
  ultimately show ?thesis
    using h1 h2 h3 h5 unfolding inc_def target_def by (intro conjI)
qed

text \<open>
  Claim C9. When the header of the increment parses, with \<open>diffBlockCount\<close> entries in
  the diffMap and \<open>payload\<close> the bytes behind it, \<open>WritePagesFromIncrement\<close> returns
  \<open>nil\<close> exactly when the payload is used up by the \<open>diffBlockCount\<close> pages (one page,
  written or discarded, for each entry), and it returns the unexpected-tar-data error
  when the reader still has a byte to deliver after these pages. A count of \<open>2^30\<close> or
  more never gets that far: the \<open>uint32\<close> product \<open>diffBlockCount * 4\<close> wraps around
  and an entry is sliced out of range.
\<close>

theorem WritePagesFromIncrement_leftover:
  assumes "getIncrementHeaderFields rih increment = Inr (fileSize, diffBlockCount, diffMap, payload)"
  shows "(fst (WritePagesFromIncrement rih increment target overwriteExisting) = None
            \<longleftrightarrow> unat diffBlockCount < 2 ^ 30
                \<and> length payload = unat diffBlockCount * DatabasePageSize)
       \<and> (unat diffBlockCount < 2 ^ 30 \<and> unat diffBlockCount * DatabasePageSize < length payload
            \<longrightarrow> fst (WritePagesFromIncrement rih increment target overwriteExisting)
                  = Some UnexpectedTarDataError)"
proof (cases "unat diffBlockCount < 2 ^ 30")
  case True
  define n where "n = length target div DatabasePageSize"
  have "length diffMap = 4 * unat diffBlockCount"
    using getIncrementHeaderFields_length [OF assms] True by (simp add: unat_count_times4)
  from diffMap_decodable [OF this True]
  obtain bs where lbs: "length bs = unat diffBlockCount"
    and dec: "\<forall>k<length bs. diffMapEntry diffMap (of_nat k) = Inr (bs ! k)"
    by auto
  have loop: "writePagesLoop 0 diffBlockCount diffMap (int n) overwriteExisting target payload
               = writeEntries bs (int n) overwriteExisting target payload"
    by (rule writePagesLoop_start [OF dec lbs])
  have inside: "n * DatabasePageSize \<le> length target" by (simp add: n_def)
  note res = writeEntries_result [OF inside, of bs payload overwriteExisting]
  have unfold: "WritePagesFromIncrement rih increment target overwriteExisting
     = (case writeEntries bs (int n) overwriteExisting target payload of
                 (Some err, target', _) \<Rightarrow> (Some err, target')
               | (None, target', increment'') \<Rightarrow>
                   if \<not> isTarReaderEmpty increment'' then (Some UnexpectedTarDataError, target')
                   else (None, target'))"
    by (simp add: WritePagesFromIncrement_def assms getPageCount_eq n_def [symmetric] loop)
  show ?thesis
  proof (cases "length bs * DatabasePageSize \<le> length payload")
    case le: True
    with res obtain t' where
      "writeEntries bs (int n) overwriteExisting target payload
         = (None, t', drop (length bs * DatabasePageSize) payload)"
      by auto
    then show ?thesis
      using le True by (auto simp: unfold isTarReaderEmpty_iff lbs)
  next
    case False
    with res have "fst (writeEntries bs (int n) overwriteExisting target payload)
                    \<in> {Some EOF, Some ErrUnexpectedEOF}"
      by simp
    then show ?thesis
      using False by (auto simp: unfold lbs split: prod.splits option.splits)
  qed
next
  case False
  then have big: "2 ^ 30 \<le> unat diffBlockCount" by simp
  have "fst (writePagesLoop (of_nat 0) diffBlockCount diffMap (int (length target div DatabasePageSize))
               overwriteExisting target payload) \<noteq> None"
    by (rule writePagesLoop_panics [OF getIncrementHeaderFields_length [OF assms] big]) simp
  then have "fst (WritePagesFromIncrement rih increment target overwriteExisting) \<noteq> None"
    by (auto simp: WritePagesFromIncrement_def assms getPageCount_eq split: prod.splits option.splits)
  with False show ?thesis by simp
qed

lemma example_fields:
  "getIncrementHeaderFields exampleReader (exampleHeader @ le64 fs @ le32 1 @ le32 b @ payload)
     = Inr (fs, 1, le32 b, payload)"
  using getIncrementHeaderFields_encoded
    [of exampleReader "exampleHeader @ le64 fs @ le32 1 @ le32 b @ payload" fs "[b]" payload]
  by (simp add: exampleReader_accepts)

theorem WritePagesFromIncrement_leftover_witness:
  "getIncrementHeaderFields exampleReader
       (exampleHeader @ le64 24576 @ le32 1 @ le32 1 @ replicate 8192 7)
     = Inr (24576, 1, le32 1, replicate 8192 7)
   \<and> fst (WritePagesFromIncrement exampleReader
            (exampleHeader @ le64 24576 @ le32 1 @ le32 1 @ replicate 8192 7)
            (replicate 16384 3) False) = None
   \<and> getIncrementHeaderFields exampleReader
       (exampleHeader @ le64 24576 @ le32 1 @ le32 1 @ replicate 8192 7 @ [9])
     = Inr (24576, 1, le32 1, replicate 8192 7 @ [9])
   \<and> fst (WritePagesFromIncrement exampleReader
            (exampleHeader @ le64 24576 @ le32 1 @ le32 1 @ replicate 8192 7 @ [9])
            (replicate 16384 3) False) = Some UnexpectedTarDataError"
proof -
  have h1: "getIncrementHeaderFields exampleReader
       (exampleHeader @ le64 24576 @ le32 1 @ le32 1 @ replicate 8192 7)
     = Inr (24576, 1, le32 1, replicate 8192 7)"
    by (rule example_fields)
  have h2: "getIncrementHeaderFields exampleReader
       (exampleHeader @ le64 24576 @ le32 1 @ le32 1 @ replicate 8192 7 @ [9])
     = Inr (24576, 1, le32 1, replicate 8192 7 @ [9])"
    by (rule example_fields)
  show ?thesis
    using h1 h2
      WritePagesFromIncrement_leftover [OF h1, of "replicate 16384 3" False]
      WritePagesFromIncrement_leftover [OF h2, of "replicate 16384 3" False]
    by (simp add: DatabasePageSize_def)
qed

lemma deltaLoop_entries:
  assumes "\<forall>k<length bs. diffMapEntry dm (of_nat k) = Inr (bs ! k)"
    and "length bs = unat cnt" and "k \<le> length bs"
  shows "deltaBlockNumbersLoop (of_nat k) cnt dm m
           = Inr (\<lambda>j. m j \<or> j \<in> uint ` set (drop k bs))"
  using assms(3)
proof (induction "length bs - k" arbitrary: k m)
  case 0
  then have "k = length bs" by simp
  then have "(of_nat k :: 32 word) = cnt" using assms(2) by simp
  then show ?case using \<open>k = length bs\<close>
    by (subst deltaBlockNumbersLoop.simps) simp
next
  case (Suc d)
  then have lt: "k < length bs" and d: "d = length bs - Suc k" by simp_all
  have "length bs < 2 ^ 32" using assms(2) unsigned_less [of cnt] by simp
  with lt have "(of_nat k :: 32 word) < of_nat (length bs)" by (rule word32_of_nat_less)
  then have less: "(of_nat k :: 32 word) < cnt" using assms(2) by simp
  have entry: "diffMapEntry dm (of_nat k) = Inr (bs ! k)" using assms(1) lt by simp
  have dr: "drop k bs = bs ! k # drop (Suc k) bs" using lt by (simp add: Cons_nth_drop_Suc)
  from lt have sk: "Suc k \<le> length bs" by simp
  have IH: "deltaBlockNumbersLoop (of_nat k + 1) cnt dm m'
              = Inr (\<lambda>j. m' j \<or> j \<in> uint ` set (drop (Suc k) bs))" for m'
    using Suc.hyps(1) [OF d sk, of m'] by (simp add: add.commute)
  have "(\<lambda>j. (m(uint (bs ! k) := True)) j \<or> j \<in> uint ` set (drop (Suc k) bs))
          = (\<lambda>j. m j \<or> j \<in> uint ` set (drop k bs))"
    unfolding dr by auto
  then show ?case
    apply (subst deltaBlockNumbersLoop.simps)
    apply (simp only: less entry if_True sum.case IH)
    done
qed

lemma sorted_head:
  assumes "sorted_wrt (<) (map fst es)" "\<forall>e\<in>set es. (i::nat) \<le> fst e" "i \<in> fst ` set es"
  shows "\<exists>p es'. es = (i, p) # es'"
proof (cases es)
  case Nil
  with assms(3) show ?thesis by simp
next
  case (Cons e es')
  obtain b p where e: "e = (b, p)" by (cases e)
  have "i \<le> b" using assms(2) Cons e by simp
  moreover have "\<forall>x\<in>set es'. b < fst x" using assms(1) Cons e by simp
  moreover have "i = b \<or> i \<in> fst ` set es'" using assms(3) Cons e by auto
  ultimately have "i = b" by auto
  with Cons e show ?thesis by simp
qed

lemma pageAt_take: "pageAt g k = drop (k * DatabasePageSize) (take (Suc k * DatabasePageSize) g)"
  by (simp add: pageAt_def drop_take)

lemma createLoop_stop: "\<not> i < n \<Longrightarrow> createLoop i n D t r = (None, t, r)"
  by (subst createLoop.simps) simp

lemma createLoop_listed:
  assumes "i < n" "D (int i)" "length p = DatabasePageSize" "i * DatabasePageSize \<le> length t"
    "i * DatabasePageSize < 2 ^ 63"
  shows "createLoop (int i) (int n) D t (p @ r) = createLoop (int (Suc i)) (int n) D (putPage t i p) r"
  using assms
  by (subst createLoop.simps) (simp add: writePage_overwrite add.commute)

lemma createLoop_unlisted:
  assumes "i < n" "\<not> D (int i)" "i * DatabasePageSize \<le> length t" "i * DatabasePageSize < 2 ^ 63"
  shows "createLoop (int i) (int n) D t r
           = createLoop (int (Suc i)) (int n) D (putPage t i (replicate DatabasePageSize 0)) r"
  using assms
  by (subst createLoop.simps) (simp add: WriteAt_page add.commute)

lemma createLoop_step_facts:
  assumes lp: "length p = DatabasePageSize" and start: "i * DatabasePageSize \<le> length t"
    and lt: "i < n"
    and len: "length t' = max (length (putPage t i p)) (n * DatabasePageSize)"
    and tk: "take (Suc i * DatabasePageSize) t' = take (Suc i * DatabasePageSize) (putPage t i p)"
    and dr: "drop (n * DatabasePageSize) t' = drop (n * DatabasePageSize) (putPage t i p)"
  shows "length t' = max (length t) (n * DatabasePageSize)"
    and "take (i * DatabasePageSize) t' = take (i * DatabasePageSize) t"
    and "drop (n * DatabasePageSize) t' = drop (n * DatabasePageSize) t"
    and "pageAt t' i = p"
proof -
  from lt have "Suc i \<le> n" by simp
  then have le: "Suc i * DatabasePageSize \<le> n * DatabasePageSize" by (rule mult_le_mono1)
  show "length t' = max (length t) (n * DatabasePageSize)"
    using len le lp start by (simp add: length_putPage)
  have "take (i * DatabasePageSize) t'
          = take (i * DatabasePageSize) (take (Suc i * DatabasePageSize) t')"
    by (simp add: min_def)
  also have "\<dots> = take (i * DatabasePageSize) (putPage t i p)"
    unfolding tk by (simp add: min_def)
  also have "\<dots> = take (i * DatabasePageSize) t"
    using take_putPage [OF start, of i p] by simp
  finally show "take (i * DatabasePageSize) t' = take (i * DatabasePageSize) t" .
  show "drop (n * DatabasePageSize) t' = drop (n * DatabasePageSize) t"
    using dr drop_putPage [OF lp start lt] by simp
  show "pageAt t' i = p"
    unfolding pageAt_take tk
    using pageAt_putPage_same [OF lp start] by (simp add: pageAt_take)
qed

lemma createLoop_spec:
  assumes "sorted_wrt (<) (map fst es)"
    and "\<forall>e\<in>set es. i \<le> fst e \<and> length (snd e) = DatabasePageSize"
    and "\<forall>j. i \<le> j \<longrightarrow> D (int j) = (j \<in> fst ` set es)"
    and "i \<le> n" and "n * DatabasePageSize < 2 ^ 63" and "i * DatabasePageSize \<le> length t"
  shows "\<exists>t' r'. createLoop (int i) (int n) D t (concat (map snd es) @ extra) = (None, t', r')
          \<and> length t' = max (length t) (n * DatabasePageSize)
          \<and> take (i * DatabasePageSize) t' = take (i * DatabasePageSize) t
          \<and> drop (n * DatabasePageSize) t' = drop (n * DatabasePageSize) t
          \<and> (\<forall>j. i \<le> j \<and> j < n \<longrightarrow>
                pageAt t' j = (case map_of es j of Some p \<Rightarrow> p
                               | None \<Rightarrow> replicate DatabasePageSize 0))"
  using assms
proof (induction "n - i" arbitrary: i t es)
  case 0
  then have "i = n" by simp
  with 0 show ?case by (auto simp: createLoop_stop)
next
  case (Suc d)
  then have lt: "i < n" and d: "d = n - Suc i" and sn: "Suc i \<le> n" by simp_all
  from lt have "i * DatabasePageSize \<le> n * DatabasePageSize" by (simp add: mult_le_mono1)
  with Suc.prems(5) have off: "i * DatabasePageSize < 2 ^ 63" by linarith
  note start = Suc.prems(6)
  show ?case
  proof (cases "D (int i)")
    case True
    then have "i \<in> fst ` set es" using Suc.prems(3) by simp
    from sorted_head [OF Suc.prems(1) _ this] Suc.prems(2)
    obtain p es' where es: "es = (i, p) # es'" by auto
    with Suc.prems(1,2) have lp: "length p = DatabasePageSize"
      and sorted': "sorted_wrt (<) (map fst es')"
      and above: "\<forall>e\<in>set es'. i < fst e"
      and all': "\<forall>e\<in>set es'. Suc i \<le> fst e \<and> length (snd e) = DatabasePageSize"
      by auto
    have D': "\<forall>j. Suc i \<le> j \<longrightarrow> D (int j) = (j \<in> fst ` set es')"
      using Suc.prems(3) es by auto
    define t1 where "t1 = putPage t i p"
    have start1: "Suc i * DatabasePageSize \<le> length t1"
      using lp start by (simp add: t1_def length_putPage add.commute)
    have step: "createLoop (int i) (int n) D t (concat (map snd es) @ extra)
                  = createLoop (int (Suc i)) (int n) D t1 (concat (map snd es') @ extra)"
      using createLoop_listed [of i n D p t "concat (map snd es') @ extra", OF lt True lp start off]
      by (simp add: es t1_def)
    from Suc.hyps(1) [OF d sorted' all' D' sn Suc.prems(5) start1]
    obtain t' r' where
      res: "createLoop (int (Suc i)) (int n) D t1 (concat (map snd es') @ extra) = (None, t', r')"
      and len: "length t' = max (length t1) (n * DatabasePageSize)"
      and tk: "take (Suc i * DatabasePageSize) t' = take (Suc i * DatabasePageSize) t1"
      and dr: "drop (n * DatabasePageSize) t' = drop (n * DatabasePageSize) t1"
      and pg: "\<forall>j. Suc i \<le> j \<and> j < n \<longrightarrow>
                pageAt t' j = (case map_of es' j of Some p \<Rightarrow> p
                               | None \<Rightarrow> replicate DatabasePageSize 0)"
      by blast
    note facts = createLoop_step_facts [OF lp start lt len [unfolded t1_def] tk [unfolded t1_def]
        dr [unfolded t1_def]]
    have pages: "pageAt t' j = (case map_of es j of Some p \<Rightarrow> p
                               | None \<Rightarrow> replicate DatabasePageSize 0)"
      if "i \<le> j \<and> j < n" for j
    proof (cases "j = i")
      case True
      with facts(4) show ?thesis by (simp add: es)
    next
      case False
      with that pg show ?thesis by (simp add: es)
    qed
    have final: "createLoop (int i) (int n) D t (concat (map snd es) @ extra) = (None, t', r')"
      by (simp only: step res)
    show ?thesis
      using final facts(1,2,3) pages by blast
  next
    case False
    then have notin: "i \<notin> fst ` set es" using Suc.prems(3) by simp
    have all': "\<forall>e\<in>set es. Suc i \<le> fst e \<and> length (snd e) = DatabasePageSize"
    proof
      fix e assume e: "e \<in> set es"
      with notin have "fst e \<noteq> i" by auto
      with Suc.prems(2) e show "Suc i \<le> fst e \<and> length (snd e) = DatabasePageSize"
        by (simp add: Suc_le_eq le_neq_implies_less)
    qed
    have D': "\<forall>j. Suc i \<le> j \<longrightarrow> D (int j) = (j \<in> fst ` set es)"
      using Suc.prems(3) by simp
    define z :: "byte list" where "z = replicate DatabasePageSize 0"
    have lz: "length z = DatabasePageSize" by (simp add: z_def)
    define t1 where "t1 = putPage t i z"
    have start1: "Suc i * DatabasePageSize \<le> length t1"
      using lz start by (simp add: t1_def length_putPage add.commute)
    have step: "createLoop (int i) (int n) D t (concat (map snd es) @ extra)
                  = createLoop (int (Suc i)) (int n) D t1 (concat (map snd es) @ extra)"
      using createLoop_unlisted [of i n D t "concat (map snd es) @ extra", OF lt False start off]
      by (simp add: t1_def z_def)
    from Suc.hyps(1) [OF d Suc.prems(1) all' D' sn Suc.prems(5) start1]
    obtain t' r' where
      res: "createLoop (int (Suc i)) (int n) D t1 (concat (map snd es) @ extra) = (None, t', r')"
      and len: "length t' = max (length t1) (n * DatabasePageSize)"
      and tk: "take (Suc i * DatabasePageSize) t' = take (Suc i * DatabasePageSize) t1"
      and dr: "drop (n * DatabasePageSize) t' = drop (n * DatabasePageSize) t1"
      and pg: "\<forall>j. Suc i \<le> j \<and> j < n \<longrightarrow>
                pageAt t' j = (case map_of es j of Some p \<Rightarrow> p
                               | None \<Rightarrow> replicate DatabasePageSize 0)"
      by blast
    note facts = createLoop_step_facts [OF lz start lt len [unfolded t1_def] tk [unfolded t1_def]
        dr [unfolded t1_def]]
    have none: "map_of es i = None" using notin by (simp add: map_of_eq_None_iff)
    have pages: "pageAt t' j = (case map_of es j of Some p \<Rightarrow> p
                               | None \<Rightarrow> replicate DatabasePageSize 0)"
      if "i \<le> j \<and> j < n" for j
    proof (cases "j = i")
      case True
      with facts(4) none show ?thesis by (simp add: z_def)
    next
      case False
      with that pg show ?thesis by simp
    qed
    have final: "createLoop (int i) (int n) D t (concat (map snd es) @ extra) = (None, t', r')"
      by (simp only: step res)
    show ?thesis
      using final facts(1,2,3) pages by blast
  qed
qed

section \<open>Verification: \<open>CreateFileFromIncrement\<close>\<close>

lemma deltaLoop_start:
  assumes "\<forall>k<length bs. diffMapEntry dm (of_nat k) = Inr (bs ! k)" "length bs = unat cnt"
  shows "deltaBlockNumbersLoop 0 cnt dm (\<lambda>_. False) = Inr (\<lambda>j. j \<in> uint ` set bs)"
  using deltaLoop_entries [OF assms, of 0 "\<lambda>_. False"] by simp

lemma listed_block: "(int j \<in> uint ` set (bs :: 32 word list)) = (j \<in> unat ` set bs)"
proof -
  have "(int j = uint w) = (j = unat w)" for w :: "32 word"
    by (simp only: uint_nat of_nat_eq_iff)
  then show ?thesis unfolding image_iff by simp
qed

text \<open>
  Claim C1, as the code has it. Take a well-formed increment: a header the header
  reader accepts, a file size (one an \<open>int64\<close> holds), the strictly ascending block
  numbers of the diffMap (fewer than \<open>2^30\<close>) and one page body of 8192 bytes for each
  of them, in this order. Then \<open>CreateFileFromIncrement\<close> returns \<open>nil\<close>, and for every
  page index below \<open>fileSize / 8192\<close> the target holds, at the offset of the page, the
  body of the \<open>k\<close>-th entry when the index is the \<open>k\<close>-th block number of the diffMap,
  and 8192 zero bytes when the index is not in the diffMap. The target is never
  shortened: what it held behind these pages is still there, and its size is the
  larger of its size before the call and \<open>fileSize / 8192\<close> pages. So it holds exactly
  \<open>fileSize / 8192\<close> pages when it was not longer than that before the call, as a newly
  created file is.
\<close>

theorem CreateFileFromIncrement_pages:
  assumes "rih increment
             = Inr (le64 fileSize @ le32 (of_nat (length blockNos)) @ concat (map le32 blockNos)
                    @ concat pages @ extra)"
    and "length pages = length blockNos" and "length blockNos < 2 ^ 30"
    and "\<forall>p\<in>set pages. length p = DatabasePageSize"
    and "sorted_wrt (<) blockNos"
    and "unat fileSize < 2 ^ 63"
  shows "fst (CreateFileFromIncrement rih increment target) = None
       \<and> (\<forall>k<length blockNos. unat (blockNos ! k) < unat fileSize div DatabasePageSize \<longrightarrow>
            pageAt (snd (CreateFileFromIncrement rih increment target)) (unat (blockNos ! k))
              = pages ! k)
       \<and> (\<forall>j<unat fileSize div DatabasePageSize. j \<notin> unat ` set blockNos \<longrightarrow>
            pageAt (snd (CreateFileFromIncrement rih increment target)) j
              = replicate DatabasePageSize 0)
       \<and> length (snd (CreateFileFromIncrement rih increment target))
           = max (length target) (unat fileSize div DatabasePageSize * DatabasePageSize)
       \<and> drop (unat fileSize div DatabasePageSize * DatabasePageSize)
            (snd (CreateFileFromIncrement rih increment target))
           = drop (unat fileSize div DatabasePageSize * DatabasePageSize) target"
proof -
  define n where "n = unat fileSize div DatabasePageSize"
  define cnt :: "32 word" where "cnt = of_nat (length blockNos)"
  define es where "es = zip (map unat blockNos) pages"
  have hdr: "getIncrementHeaderFields rih increment
           = Inr (fileSize, cnt, concat (map le32 blockNos), concat pages @ extra)"
    unfolding cnt_def
    using getIncrementHeaderFields_encoded
      [of rih increment fileSize blockNos "concat pages @ extra"] assms(1,3)
    by simp
  have lbs: "length blockNos = unat cnt" using assms(3) by (simp add: cnt_def unat_count32)
  have dec: "\<forall>k<length blockNos. diffMapEntry (concat (map le32 blockNos)) (of_nat k) = Inr (blockNos ! k)"
    using diffMapEntry_encoded assms(3) by blast
  define D where "D = (\<lambda>j. j \<in> uint ` set blockNos)"
  have delta: "deltaBlockNumbersLoop 0 cnt (concat (map le32 blockNos)) (\<lambda>_. False) = Inr D"
    unfolding D_def by (rule deltaLoop_start [OF dec lbs])
  have keys: "map fst es = map unat blockNos" and bodies: "map snd es = pages"
    using assms(2) by (simp_all add: es_def)
  have "sorted_wrt (\<lambda>a b. unat a < unat b) blockNos"
    using assms(5) by (rule sorted_wrt_mono_rel [rotated]) (simp add: word_less_nat_alt)
  then have sorted: "sorted_wrt (<) (map fst es)" by (simp only: keys sorted_wrt_map)
  have distinct: "distinct blockNos" using assms(5) by (simp add: strict_sorted_iff)
  have all: "\<forall>e\<in>set es. 0 \<le> fst e \<and> length (snd e) = DatabasePageSize"
    using assms(4) by (auto simp: es_def dest: set_zip_rightD)
  have "fst ` set es = unat ` set blockNos" by (metis keys set_map)
  then have Dn: "\<forall>j. 0 \<le> j \<longrightarrow> D (int j) = (j \<in> fst ` set es)"
    by (simp add: D_def listed_block)
  have "n * DatabasePageSize \<le> unat fileSize" by (simp add: n_def)
  with assms(6) have bound: "n * DatabasePageSize < 2 ^ 63" by linarith
  have start: "0 * DatabasePageSize \<le> length target" by simp
  from createLoop_spec [OF sorted all Dn _ bound start, of extra]
  obtain t' r' where
    res: "createLoop 0 (int n) D target (concat pages @ extra) = (None, t', r')"
    and len: "length t' = max (length target) (n * DatabasePageSize)"
    and drp: "drop (n * DatabasePageSize) t' = drop (n * DatabasePageSize) target"
    and pg: "\<forall>j. 0 \<le> j \<and> j < n \<longrightarrow>
                pageAt t' j = (case map_of es j of Some p \<Rightarrow> p
                               | None \<Rightarrow> replicate DatabasePageSize 0)"
    by (auto simp: bodies)
  have R: "CreateFileFromIncrement rih increment target = (None, t')"
    by (simp add: CreateFileFromIncrement_def hdr delta n_def [symmetric] res)
  have listed: "pageAt t' (unat (blockNos ! k)) = pages ! k"
    if "k < length blockNos" "unat (blockNos ! k) < n" for k
    using pg that map_of_blocks_nth [OF assms(2) distinct that(1)] by (simp add: es_def)
  have unlisted: "pageAt t' j = replicate DatabasePageSize 0"
    if "j < n" "j \<notin> unat ` set blockNos" for j
    using pg that map_of_blocks_none [OF assms(2) that(2)] by (simp add: es_def)
  show ?thesis
    unfolding R n_def [symmetric] using len drp listed unlisted by simp
qed

lemma three_pages:
  assumes "drop 24576 t = []"
  shows "t = pageAt t 0 @ pageAt t 1 @ pageAt t 2"
proof -
  have "t = take 8192 t @ drop 8192 t" by (simp only: append_take_drop_id)
  also have "drop 8192 t = take 8192 (drop 8192 t) @ drop 8192 (drop 8192 t)"
    by (simp only: append_take_drop_id)
  also have "drop 8192 (drop 8192 t) = drop 16384 t" by simp
  also have "drop 16384 t = take 8192 (drop 16384 t) @ drop 8192 (drop 16384 t)"
    by (simp only: append_take_drop_id)
  also have "drop 8192 (drop 16384 t) = drop 24576 t" by simp
  finally show ?thesis using assms by (simp add: pageAt_def DatabasePageSize_def)
qed

text \<open>
  The theorem at a new (empty) target and an increment of three pages with the one
  entry 1: the file created is a zero page, the body, a zero page.
\<close>

theorem CreateFileFromIncrement_pages_witness:
  "exampleReader (exampleHeader @ le64 24576 @ le32 1 @ le32 1 @ replicate 8192 7)
     = Inr (le64 24576 @ le32 (of_nat (length [1 :: 32 word])) @ concat (map le32 [1])
            @ concat [replicate 8192 7] @ [])
   \<and> length [replicate 8192 (7 :: byte)] = length [1 :: 32 word]
   \<and> length [1 :: 32 word] < 2 ^ 30
   \<and> length (replicate 8192 (7 :: byte)) = DatabasePageSize
   \<and> sorted_wrt (<) [1 :: 32 word]
   \<and> unat (24576 :: 64 word) < 2 ^ 63
   \<and> CreateFileFromIncrement exampleReader
        (exampleHeader @ le64 24576 @ le32 1 @ le32 1 @ replicate 8192 7) []
       = (None, replicate 8192 0 @ replicate 8192 7 @ replicate 8192 0)"
proof -
  define inc :: reader where
    "inc = exampleHeader @ le64 24576 @ le32 1 @ le32 1 @ replicate 8192 7"
  have h1: "exampleReader inc
     = Inr (le64 24576 @ le32 (of_nat (length [1 :: 32 word])) @ concat (map le32 [1])
            @ concat [replicate 8192 7] @ [])"
    by (simp add: inc_def exampleReader_accepts)
  have h2: "length [replicate 8192 (7 :: byte)] = length [1 :: 32 word]" by simp
  have h3: "length [1 :: 32 word] < 2 ^ 30" by simp
  have h4: "\<forall>p\<in>set [replicate 8192 (7 :: byte)]. length p = DatabasePageSize"
    by (simp add: DatabasePageSize_def)
  have h5: "sorted_wrt (<) [1 :: 32 word]" by simp
  have h6: "unat (24576 :: 64 word) < 2 ^ 63" by simp
  note c = CreateFileFromIncrement_pages
    [of exampleReader inc 24576 "[1]" "[replicate 8192 7]" "[]" "[]", OF h1 h2 h3 h4 h5 h6]
  define t' where "t' = snd (CreateFileFromIncrement exampleReader inc [])"
  have n: "unat (24576 :: 64 word) div DatabasePageSize = 3" by (simp add: DatabasePageSize_def)
  have r: "fst (CreateFileFromIncrement exampleReader inc []) = None"
    using c by simp
  have tail: "drop 24576 t' = []"
    using c by (simp add: t'_def n DatabasePageSize_def)
  have p1: "pageAt t' 1 = replicate 8192 7"
    using c [THEN conjunct2, THEN conjunct1, rule_format, of 0]
    by (simp add: t'_def DatabasePageSize_def)
  have p0: "pageAt t' 0 = replicate 8192 0"
    using c [THEN conjunct2, THEN conjunct2, THEN conjunct1, rule_format, of 0]
    by (simp add: t'_def n DatabasePageSize_def)
  have p2: "pageAt t' 2 = replicate 8192 0"
    using c [THEN conjunct2, THEN conjunct2, THEN conjunct1, rule_format, of 2]
    by (simp add: t'_def n DatabasePageSize_def)
  have "t' = replicate 8192 0 @ replicate 8192 7 @ replicate 8192 0"
    using three_pages [OF tail] p0 p1 p2 by simp
  with r have "CreateFileFromIncrement exampleReader inc []
       = (None, replicate 8192 0 @ replicate 8192 7 @ replicate 8192 0)"
    unfolding t'_def by (metis prod.collapse)
  moreover have "length (replicate 8192 (7 :: byte)) = DatabasePageSize"
    by (simp add: DatabasePageSize_def)
  ultimately show ?thesis
    using h1 h2 h3 h5 h6 unfolding inc_def by (intro conjI)
qed

text \<open>
  Claim C1 as the spec words it fails: on a target of two pages of bytes 3 and an
  increment with file size 8192 and an empty diffMap, the call returns \<open>nil\<close> and the
  target still holds two pages, the zero page and the old second page, not exactly
  \<open>8192 / 8192 = 1\<close> page. \<open>ReadWriterAt\<close> has no operation that shortens a file.
\<close>

theorem CreateFileFromIncrement_longer_target_counterexample:
  "CreateFileFromIncrement exampleReader
     ([0x77, 0x69, 0x31, 0x55] @ [0, 0, 0, 0, 0, 0, 0, 0] @ [0, 0x20, 0, 0, 0, 0, 0, 0]
        @ [0, 0, 0, 0])
     (replicate 16384 3)
     = (None, replicate 8192 0 @ replicate 8192 3)
   \<and> length (replicate 8192 (0 :: byte) @ replicate 8192 3) = 2 * DatabasePageSize
   \<and> (8192 :: nat) div DatabasePageSize = 1"
proof -
  have h: "getIncrementHeaderFields exampleReader
     ([0x77, 0x69, 0x31, 0x55] @ [0, 0, 0, 0, 0, 0, 0, 0] @ [0, 0x20, 0, 0, 0, 0, 0, 0]
        @ [0, 0, 0, 0]) = Inr (8192, 0, [], [])"
    by (simp add: getIncrementHeaderFields_def exampleReader_def ReadIncrementFileHeader_def
      ReadFull_def ParseMultipleFieldsFromReader_def Uint64_def Uint32_def sizeofInt32_def)
  have d: "deltaBlockNumbersLoop 0 0 [] (\<lambda>_. False) = Inr (\<lambda>_. False)"
    by (subst deltaBlockNumbersLoop.simps) simp
  have w: "WriteAt (replicate 16384 3) (replicate DatabasePageSize 0) (int64_mul 0 (int DatabasePageSize))
            = Inr (replicate 8192 0 @ replicate 8192 3)"
    by (simp add: WriteAt_def int64_mul_def DatabasePageSize_def)
  have c: "createLoop 0 1 (\<lambda>_. False) (replicate 16384 3) []
            = (None, replicate 8192 0 @ replicate 8192 3, [])"
    apply (subst createLoop.simps)
    apply (simp add: w)
    apply (subst createLoop.simps)
    apply simp
    done
  show ?thesis
    using h d c by (simp add: CreateFileFromIncrement_def DatabasePageSize_def)
qed

section \<open>Verification: what the decoder checks\<close>

lemma sizeof_product: "unat (cnt * sizeofInt32) = (4 * unat cnt) mod 2 ^ 32"
  by (simp add: sizeofInt32_def unat_word_ariths mult.commute)

text \<open>
  Claim C3, as the code has it. For every increment stream, \<open>getIncrementHeaderFields\<close>
  returns an error, and has read no payload page, whenever the header reader rejects
  the stream (the check of magic and version) or the stream ends before the file size,
  the count and the diffMap are read. The diffMap is the next
  \<open>(4 * diffBlockCount) mod 2^32\<close> bytes: the code computes the product in \<open>uint32\<close>, so
  it wraps around for a count of \<open>2^30\<close> or more (the count \<open>0x40000000\<close> asks for no
  byte at all). A stream that ends inside these bytes gives \<open>io.ErrUnexpectedEOF\<close>, one
  that ends right before them \<open>io.EOF\<close>. The decoder checks nothing else: whatever the
  bytes of the diffMap and whatever follows them, it returns the fields and leaves the
  reader at the first byte behind the diffMap.
\<close>

theorem getIncrementHeaderFields_checks:
  "(rih increment = Inl e \<longrightarrow> getIncrementHeaderFields rih increment = Inl e)
   \<and> (rih increment = Inr (le64 fileSize @ le32 cnt @ diffMap @ payload)
        \<and> length diffMap = (4 * unat cnt) mod 2 ^ 32
       \<longrightarrow> getIncrementHeaderFields rih increment = Inr (fileSize, cnt, diffMap, payload))
   \<and> (rih increment = Inr (le64 fileSize @ le32 cnt @ rest)
        \<and> length rest < (4 * unat cnt) mod 2 ^ 32
       \<longrightarrow> getIncrementHeaderFields rih increment
             = Inl (if rest = [] then EOF else ErrUnexpectedEOF))
   \<and> (rih increment = Inr body \<and> length body < 12
       \<longrightarrow> (\<exists>err. getIncrementHeaderFields rih increment = Inl err))"
proof (intro conjI impI)
  assume "rih increment = Inl e"
  then show "getIncrementHeaderFields rih increment = Inl e"
    by (simp add: getIncrementHeaderFields_def)
next
  assume "rih increment = Inr (le64 fileSize @ le32 cnt @ diffMap @ payload)
        \<and> length diffMap = (4 * unat cnt) mod 2 ^ 32"
  then show "getIncrementHeaderFields rih increment = Inr (fileSize, cnt, diffMap, payload)"
    by (simp add: getIncrementHeaderFields_def Parse_encoded ReadFull_append sizeof_product)
next
  assume "rih increment = Inr (le64 fileSize @ le32 cnt @ rest)
        \<and> length rest < (4 * unat cnt) mod 2 ^ 32"
  then show "getIncrementHeaderFields rih increment
             = Inl (if rest = [] then EOF else ErrUnexpectedEOF)"
    by (simp add: getIncrementHeaderFields_def Parse_encoded ReadFull_def sizeof_product)
next
  assume a: "rih increment = Inr body \<and> length body < 12"
  have "\<exists>err. ParseMultipleFieldsFromReader body = Inl err"
  proof (cases "length body < 8")
    case True
    then show ?thesis by (simp add: ParseMultipleFieldsFromReader_def ReadFull_def)
  next
    case False
    then have "length (take 8 body) = 8" by simp
    then have "\<exists>w. Uint64 (take 8 body) = Inr w" by (simp add: Uint64_def)
    moreover have "length (drop 8 body) < 4" using a False by auto
    ultimately show ?thesis
      using False by (auto simp: ParseMultipleFieldsFromReader_def ReadFull_def)
  qed
  with a show "\<exists>err. getIncrementHeaderFields rih increment = Inl err"
    by (auto simp: getIncrementHeaderFields_def)
qed

lemma exampleReader_rejects_magic:
  "exampleReader ([0x78, 0x69, 0x31, 0x55] @ r) = Inl InvalidIncrementFileHeaderError"
  by (simp add: exampleReader_def ReadIncrementFileHeader_def ReadFull_def)

text \<open>
  The theorem at a stream with a wrong magic byte, at a stream with one diffMap entry
  and its page, at a stream whose count wraps to an empty diffMap, at a stream that
  ends inside the diffMap and at one that ends inside the two fields.
\<close>

theorem getIncrementHeaderFields_checks_witness:
  "(exampleReader ([0x78, 0x69, 0x31, 0x55] @ replicate 8 0) = Inl InvalidIncrementFileHeaderError
    \<and> getIncrementHeaderFields exampleReader ([0x78, 0x69, 0x31, 0x55] @ replicate 8 0)
        = Inl InvalidIncrementFileHeaderError)
   \<and> (exampleReader (exampleHeader @ le64 24576 @ le32 1 @ le32 1 @ replicate 8192 7)
        = Inr (le64 24576 @ le32 1 @ le32 1 @ replicate 8192 7)
      \<and> length (le32 1) = (4 * unat (1 :: 32 word)) mod 2 ^ 32
      \<and> getIncrementHeaderFields exampleReader
           (exampleHeader @ le64 24576 @ le32 1 @ le32 1 @ replicate 8192 7)
          = Inr (24576, 1, le32 1, replicate 8192 7))
   \<and> (exampleReader (exampleHeader @ le64 24576 @ le32 0x40000000 @ [] @ [])
        = Inr (le64 24576 @ le32 0x40000000 @ [] @ [])
      \<and> length ([] :: byte list) = (4 * unat (0x40000000 :: 32 word)) mod 2 ^ 32
      \<and> getIncrementHeaderFields exampleReader (exampleHeader @ le64 24576 @ le32 0x40000000 @ [] @ [])
          = Inr (24576, 0x40000000, [], []))
   \<and> (exampleReader (exampleHeader @ le64 24576 @ le32 2 @ le32 1)
        = Inr (le64 24576 @ le32 2 @ le32 1)
      \<and> length (le32 1) < (4 * unat (2 :: 32 word)) mod 2 ^ 32
      \<and> getIncrementHeaderFields exampleReader (exampleHeader @ le64 24576 @ le32 2 @ le32 1)
          = Inl ErrUnexpectedEOF)
   \<and> (exampleReader (exampleHeader @ [1, 2, 3]) = Inr [1, 2, 3]
      \<and> length [1, 2, 3 :: byte] < 12
      \<and> (\<exists>err. getIncrementHeaderFields exampleReader (exampleHeader @ [1, 2, 3]) = Inl err))"
proof -
  have a: "exampleReader ([0x78, 0x69, 0x31, 0x55] @ replicate 8 0) = Inl InvalidIncrementFileHeaderError"
    by (rule exampleReader_rejects_magic)
  have b: "exampleReader (exampleHeader @ le64 24576 @ le32 1 @ le32 1 @ replicate 8192 7)
        = Inr (le64 24576 @ le32 1 @ le32 1 @ replicate 8192 7)
      \<and> length (le32 1) = (4 * unat (1 :: 32 word)) mod 2 ^ 32"
    by (simp add: exampleReader_accepts le32_def)
  have w: "exampleReader (exampleHeader @ le64 24576 @ le32 0x40000000 @ [] @ [])
        = Inr (le64 24576 @ le32 0x40000000 @ [] @ [])
      \<and> length ([] :: byte list) = (4 * unat (0x40000000 :: 32 word)) mod 2 ^ 32"
    by (simp add: exampleReader_accepts)
  have c: "exampleReader (exampleHeader @ le64 24576 @ le32 2 @ le32 1)
        = Inr (le64 24576 @ le32 2 @ le32 1)
      \<and> length (le32 1) < (4 * unat (2 :: 32 word)) mod 2 ^ 32"
    by (simp add: exampleReader_accepts le32_def)
  have d: "exampleReader (exampleHeader @ [1, 2, 3]) = Inr [1, 2, 3] \<and> length [1, 2, 3 :: byte] < 12"
    by (simp add: exampleReader_accepts)
  have ne: "le32 1 \<noteq> []" by (simp add: le32_def)
  note t1 = getIncrementHeaderFields_checks
    [of exampleReader "[0x78, 0x69, 0x31, 0x55] @ replicate 8 0" InvalidIncrementFileHeaderError,
      THEN conjunct1, rule_format, OF a]
  note t2 = getIncrementHeaderFields_checks
    [of exampleReader "exampleHeader @ le64 24576 @ le32 1 @ le32 1 @ replicate 8192 7" _
        24576 1 "le32 1" "replicate 8192 7",
      THEN conjunct2, THEN conjunct1, rule_format, OF b]
  note t2w = getIncrementHeaderFields_checks
    [of exampleReader "exampleHeader @ le64 24576 @ le32 0x40000000 @ [] @ []" _
        24576 "0x40000000" "[]" "[]",
      THEN conjunct2, THEN conjunct1, rule_format, OF w]
  note t3 = getIncrementHeaderFields_checks
    [of exampleReader "exampleHeader @ le64 24576 @ le32 2 @ le32 1" _ 24576 2 _ _ "le32 1",
      THEN conjunct2, THEN conjunct2, THEN conjunct1, rule_format, OF c]
  have t3': "getIncrementHeaderFields exampleReader (exampleHeader @ le64 24576 @ le32 2 @ le32 1)
          = Inl ErrUnexpectedEOF"
    using t3 ne by simp
  note t4 = getIncrementHeaderFields_checks
    [of exampleReader "exampleHeader @ [1, 2, 3]" _ _ _ _ _ _ "[1, 2, 3]",
      THEN conjunct2, THEN conjunct2, THEN conjunct2, rule_format, OF d]
  from a b w c d t1 t2 t2w t3' t4 show ?thesis by (intro conjI) blast+
qed

text \<open>
  Claim C3 as the spec words it fails: the decoder accepts the stream with an accepted
  header, file size 24576, count 2 and the diffMap entries 5 and 3, in this order and
  with no payload byte behind them. The block numbers do not ascend and the two pages
  of \<open>2 * 8192\<close> bytes exceed the 0 bytes that remain, yet the fields are returned.
\<close>

theorem decoder_accepts_unordered_counterexample:
  "getIncrementHeaderFields exampleReader
     ([0x77, 0x69, 0x31, 0x55] @ [0, 0, 0, 0, 0, 0, 0, 0] @ [0, 0x60, 0, 0, 0, 0, 0, 0]
        @ [2, 0, 0, 0] @ [5, 0, 0, 0] @ [3, 0, 0, 0])
     = Inr (24576, 2, [5, 0, 0, 0, 3, 0, 0, 0], [])
   \<and> diffMapEntry [5, 0, 0, 0, 3, 0, 0, 0] 0 = Inr 5
   \<and> diffMapEntry [5, 0, 0, 0, 3, 0, 0, 0] 1 = Inr 3
   \<and> \<not> sorted_wrt (<) [5, 3 :: 32 word]
   \<and> \<not> 2 * DatabasePageSize \<le> length ([] :: byte list)"
  by (simp add: getIncrementHeaderFields_def exampleReader_def ReadIncrementFileHeader_def
      ReadFull_def ParseMultipleFieldsFromReader_def Uint64_def Uint32_def sizeofInt32_def
      diffMapEntry_def slice_def DatabasePageSize_def)

lemma UploadLoop_Failed_mono:
  "Failed u \<Longrightarrow> Failed (snd (UploadLoop i err u path content))"
proof (induction i err u path content rule: UploadLoop.induct)
  case (1 i err uploader path content)
  show ?case
    apply (subst UploadLoop.simps)
    using 1 apply (auto simp: Let_def split: prod.splits)
    done
qed

lemma UploadLoop_respond:
  "respond (UploadingFolder (snd (UploadLoop i err u path content))) = respond (UploadingFolder u)"
proof (induction i err u path content rule: UploadLoop.induct)
  case (1 i err uploader path content)
  show ?case
    apply (subst UploadLoop.simps)
    using 1 apply (auto simp: Let_def PutObject_def split: prod.splits)
    done
qed

lemma UploadLoop_last:
  "UploadLoop 3 err u path content = (err, u\<lparr>Failed := True\<rparr>)"
  by (subst UploadLoop.simps) (simp add: retries_def)

lemma UploadLoop_attempt:
  assumes "i < 3" "respond (UploadingFolder u) (length (puts (UploadingFolder u))) = (e, k)"
  shows "UploadLoop i err u path content
          = (let u' = u\<lparr>UploadingFolder := (UploadingFolder u)
                          \<lparr>puts := puts (UploadingFolder u) @ [(path, content)]\<rparr>,
                        tarSize := map_option (\<lambda>n. n + int (length content - length (drop k content)))
                                     (tarSize u)\<rparr>
             in if e = None then (None, u') else UploadLoop (i + 1) e u' path (drop k content))"
  using assms
  by (subst UploadLoop.simps) (simp add: retries_def PutObject_def Let_def)

lemma less_three: "(k < (3::nat)) = (k = 0 \<or> k = 1 \<or> k = 2)"
  by arith

lemma Upload_unrolled:
  assumes r0: "respond (UploadingFolder u) (length (puts (UploadingFolder u))) = (e0, k0)"
    and r1: "respond (UploadingFolder u) (length (puts (UploadingFolder u)) + 1) = (e1, k1)"
    and r2: "respond (UploadingFolder u) (length (puts (UploadingFolder u)) + 2) = (e2, k2)"
  shows "\<exists>u'. Upload u path content
            = (if e0 = None \<or> e1 = None \<or> e2 = None then None else e2, u')
          \<and> Failed u' = (if e0 = None \<or> e1 = None \<or> e2 = None then Failed u else True)
          \<and> (\<exists>log. puts (UploadingFolder u') = puts (UploadingFolder u) @ log
                  \<and> length log = (if e0 = None then 1 else if e1 = None then 2 else 3)
                  \<and> map fst log = replicate (length log) path)
          \<and> respond (UploadingFolder u') = respond (UploadingFolder u)"
proof -
  define c1 where "c1 = drop k0 content"
  define c2 where "c2 = drop k1 c1"
  define c3 where "c3 = drop k2 c2"
  define u1 where "u1 = u\<lparr>UploadingFolder := (UploadingFolder u)
                          \<lparr>puts := puts (UploadingFolder u) @ [(path, content)]\<rparr>,
                        tarSize := map_option (\<lambda>n. n + int (length content - length c1)) (tarSize u)\<rparr>"
  define u2 where "u2 = u1\<lparr>UploadingFolder := (UploadingFolder u1)
                          \<lparr>puts := puts (UploadingFolder u1) @ [(path, c1)]\<rparr>,
                        tarSize := map_option (\<lambda>n. n + int (length c1 - length c2)) (tarSize u1)\<rparr>"
  define u3 where "u3 = u2\<lparr>UploadingFolder := (UploadingFolder u2)
                          \<lparr>puts := puts (UploadingFolder u2) @ [(path, c2)]\<rparr>,
                        tarSize := map_option (\<lambda>n. n + int (length c2 - length c3)) (tarSize u2)\<rparr>"
  have r1': "respond (UploadingFolder u1) (length (puts (UploadingFolder u1))) = (e1, k1)"
    using r1 by (simp add: u1_def)
  have r2': "respond (UploadingFolder u2) (length (puts (UploadingFolder u2))) = (e2, k2)"
    using r2 by (simp add: u2_def u1_def)
  have s0: "UploadLoop 0 None u path content
             = (if e0 = None then (None, u1) else UploadLoop 1 e0 u1 path c1)"
    using UploadLoop_attempt [OF _ r0, of 0 None path content]
    by (simp add: Let_def u1_def c1_def)
  have s1: "UploadLoop 1 e0 u1 path c1
             = (if e1 = None then (None, u2) else UploadLoop 2 e1 u2 path c2)"
    using UploadLoop_attempt [OF _ r1', of 1 e0 path c1]
    by (simp add: Let_def u2_def c2_def)
  have s2: "UploadLoop 2 e1 u2 path c2
             = (if e2 = None then (None, u3) else UploadLoop 3 e2 u3 path c3)"
    using UploadLoop_attempt [OF _ r2', of 2 e1 path c2]
    by (simp add: Let_def u3_def c3_def)
  note s3 = UploadLoop_last [of e2 u3 path c3]
  consider (a) "e0 = None" | (b) "e0 \<noteq> None" "e1 = None" | (c) "e0 \<noteq> None" "e1 \<noteq> None" "e2 = None"
    | (d) "e0 \<noteq> None" "e1 \<noteq> None" "e2 \<noteq> None"
    by blast
  then show ?thesis
  proof cases
    case a
    then have "Upload u path content = (None, u1)" by (simp add: Upload_def s0)
    with a show ?thesis by (simp add: u1_def)
  next
    case b
    then have "Upload u path content = (None, u2)" by (auto simp: Upload_def s0 s1)
    with b show ?thesis by (auto simp: u2_def u1_def)
  next
    case c
    then have "Upload u path content = (None, u3)" by (auto simp: Upload_def s0 s1 s2)
    with c show ?thesis by (auto simp: u3_def u2_def u1_def)
  next
    case d
    then have "Upload u path content = (e2, u3\<lparr>Failed := True\<rparr>)"
      by (auto simp: Upload_def s0 s1 s2 s3)
    with d show ?thesis by (auto simp: u3_def u2_def u1_def)
  qed
qed

lemma Upload_calls:
  assumes r0: "respond (UploadingFolder u) (length (puts (UploadingFolder u))) = (e0, k0)"
    and r1: "respond (UploadingFolder u) (length (puts (UploadingFolder u)) + 1) = (e1, k1)"
    and r2: "respond (UploadingFolder u) (length (puts (UploadingFolder u)) + 2) = (e2, k2)"
  shows "puts (UploadingFolder (snd (Upload u path content)))
          = puts (UploadingFolder u)
            @ take (if e0 = None then 1 else if e1 = None then 2 else 3)
                [(path, content), (path, drop k0 content), (path, drop k1 (drop k0 content))]"
proof -
  define c1 where "c1 = drop k0 content"
  define c2 where "c2 = drop k1 c1"
  define c3 where "c3 = drop k2 c2"
  define u1 where "u1 = u\<lparr>UploadingFolder := (UploadingFolder u)
                          \<lparr>puts := puts (UploadingFolder u) @ [(path, content)]\<rparr>,
                        tarSize := map_option (\<lambda>n. n + int (length content - length c1)) (tarSize u)\<rparr>"
  define u2 where "u2 = u1\<lparr>UploadingFolder := (UploadingFolder u1)
                          \<lparr>puts := puts (UploadingFolder u1) @ [(path, c1)]\<rparr>,
                        tarSize := map_option (\<lambda>n. n + int (length c1 - length c2)) (tarSize u1)\<rparr>"
  define u3 where "u3 = u2\<lparr>UploadingFolder := (UploadingFolder u2)
                          \<lparr>puts := puts (UploadingFolder u2) @ [(path, c2)]\<rparr>,
                        tarSize := map_option (\<lambda>n. n + int (length c2 - length c3)) (tarSize u2)\<rparr>"
  have r1': "respond (UploadingFolder u1) (length (puts (UploadingFolder u1))) = (e1, k1)"
    using r1 by (simp add: u1_def)
  have r2': "respond (UploadingFolder u2) (length (puts (UploadingFolder u2))) = (e2, k2)"
    using r2 by (simp add: u2_def u1_def)
  have s0: "UploadLoop 0 None u path content
             = (if e0 = None then (None, u1) else UploadLoop 1 e0 u1 path c1)"
    using UploadLoop_attempt [OF _ r0, of 0 None path content]
    by (simp add: Let_def u1_def c1_def)
  have s1: "UploadLoop 1 e0 u1 path c1
             = (if e1 = None then (None, u2) else UploadLoop 2 e1 u2 path c2)"
    using UploadLoop_attempt [OF _ r1', of 1 e0 path c1]
    by (simp add: Let_def u2_def c2_def)
  have s2: "UploadLoop 2 e1 u2 path c2
             = (if e2 = None then (None, u3) else UploadLoop 3 e2 u3 path c3)"
    using UploadLoop_attempt [OF _ r2', of 2 e1 path c2]
    by (simp add: Let_def u3_def c3_def)
  note s3 = UploadLoop_last [of e2 u3 path c3]
  have p1: "puts (UploadingFolder u1) = puts (UploadingFolder u) @ [(path, content)]"
    by (simp add: u1_def)
  have p2: "puts (UploadingFolder u2)
              = puts (UploadingFolder u) @ [(path, content), (path, drop k0 content)]"
    by (simp add: u2_def u1_def c1_def)
  have p3: "puts (UploadingFolder u3)
              = puts (UploadingFolder u)
                @ [(path, content), (path, drop k0 content), (path, drop k1 (drop k0 content))]"
    by (simp add: u3_def u2_def u1_def c1_def c2_def)
  consider (a) "e0 = None" | (b) "e0 \<noteq> None" "e1 = None" | (c) "e0 \<noteq> None" "e1 \<noteq> None"
    by blast
  then show ?thesis
  proof cases
    case a
    then have "Upload u path content = (None, u1)" by (simp add: Upload_def s0)
    with a p1 show ?thesis by simp
  next
    case b
    then have "Upload u path content = (None, u2)" by (auto simp: Upload_def s0 s1)
    with b p2 show ?thesis by simp
  next
    case c
    then have "Upload u path content = (if e2 = None then (None, u3) else (e2, u3\<lparr>Failed := True\<rparr>))"
      by (auto simp: Upload_def s0 s1 s2 s3)
    with c p3 show ?thesis by auto
  qed
qed

section \<open>Verification: the uploader\<close>

text \<open>
  Claim C2. For every uploader, path and content, \<open>Upload\<close> calls \<open>PutObject\<close> at
  least once and at most 3 times, each time on the path and on the reader as the
  calls before have left it, and stops at the first call answered without an error:
  the calls the folder has received after \<open>Upload\<close> are those it had received before
  followed by these one, two or three. When one of the (up to) three calls is answered
  without an error, the result is \<open>nil\<close> and the \<open>Failed\<close> flag is what it was (it
  stays false). When all three are answered with an error, the result is the error of
  the third call and the flag is true.
\<close>

theorem Upload_retries:
  "puts (UploadingFolder (snd (Upload u path content)))
     = puts (UploadingFolder u)
       @ take (if fst (respond (UploadingFolder u) (length (puts (UploadingFolder u)))) = None then 1
               else if fst (respond (UploadingFolder u) (length (puts (UploadingFolder u)) + 1)) = None
               then 2 else 3)
           [(path, content),
            (path, drop (snd (respond (UploadingFolder u) (length (puts (UploadingFolder u))))) content),
            (path, drop (snd (respond (UploadingFolder u) (length (puts (UploadingFolder u)) + 1)))
                     (drop (snd (respond (UploadingFolder u) (length (puts (UploadingFolder u)))))
                        content))]
   \<and> ((\<exists>k<3. fst (respond (UploadingFolder u) (length (puts (UploadingFolder u)) + k)) = None)
        \<longrightarrow> fst (Upload u path content) = None
            \<and> Failed (snd (Upload u path content)) = Failed u)
   \<and> ((\<forall>k<3. fst (respond (UploadingFolder u) (length (puts (UploadingFolder u)) + k)) \<noteq> None)
        \<longrightarrow> fst (Upload u path content)
              = fst (respond (UploadingFolder u) (length (puts (UploadingFolder u)) + 2))
            \<and> Failed (snd (Upload u path content)))"
proof -
  obtain e0 k0 where r0: "respond (UploadingFolder u) (length (puts (UploadingFolder u))) = (e0, k0)"
    by (cases "respond (UploadingFolder u) (length (puts (UploadingFolder u)))")
  obtain e1 k1 where r1: "respond (UploadingFolder u) (length (puts (UploadingFolder u)) + 1) = (e1, k1)"
    by (cases "respond (UploadingFolder u) (length (puts (UploadingFolder u)) + 1)")
  obtain e2 k2 where r2: "respond (UploadingFolder u) (length (puts (UploadingFolder u)) + 2) = (e2, k2)"
    by (cases "respond (UploadingFolder u) (length (puts (UploadingFolder u)) + 2)")
  from Upload_unrolled [OF r0 r1 r2, of path content]
  obtain u' where res: "Upload u path content
            = (if e0 = None \<or> e1 = None \<or> e2 = None then None else e2, u')"
    and flag: "Failed u' = (if e0 = None \<or> e1 = None \<or> e2 = None then Failed u else True)"
    by blast
  note calls = Upload_calls [OF r0 r1 r2, of path content]
  have some: "(\<exists>k<3. fst (respond (UploadingFolder u) (length (puts (UploadingFolder u)) + k)) = None)
               = (e0 = None \<or> e1 = None \<or> e2 = None)"
    using r0 r1 r2 by (auto simp: less_three)
  have all: "(\<forall>k<3. fst (respond (UploadingFolder u) (length (puts (UploadingFolder u)) + k)) \<noteq> None)
               = (\<not> (e0 = None \<or> e1 = None \<or> e2 = None))"
    using r0 r1 r2 by (auto simp: less_three)
  show ?thesis
    unfolding some all unfolding r0 r1 r2 fst_conv snd_conv
    using res flag calls by auto
qed

text \<open>
  The theorem at a new uploader on the folder that rejects two calls and accepts the
  third, and at a new uploader on the folder that rejects every call: each folder has
  received three calls.
\<close>

theorem Upload_retries_witness:
  "fst (respond (UploadingFolder (NewUploader exampleCompressor flakyFolder))
          (length (puts (UploadingFolder (NewUploader exampleCompressor flakyFolder))) + 2)) = None
   \<and> fst (Upload (NewUploader exampleCompressor flakyFolder) ''part_001.tar.lz4'' [1, 2, 3]) = None
   \<and> Failed (snd (Upload (NewUploader exampleCompressor flakyFolder) ''part_001.tar.lz4'' [1, 2, 3]))
       = False
   \<and> puts (UploadingFolder
         (snd (Upload (NewUploader exampleCompressor flakyFolder) ''part_001.tar.lz4'' [1, 2, 3])))
       = [(''part_001.tar.lz4'', [1, 2, 3]), (''part_001.tar.lz4'', [1, 2, 3]),
          (''part_001.tar.lz4'', [1, 2, 3])]
   \<and> fst (Upload (NewUploader exampleCompressor deadFolder) ''part_001.tar.lz4'' [1, 2, 3])
       = Some (OtherError ''unreachable'')
   \<and> Failed (snd (Upload (NewUploader exampleCompressor deadFolder) ''part_001.tar.lz4'' [1, 2, 3]))
   \<and> puts (UploadingFolder
         (snd (Upload (NewUploader exampleCompressor deadFolder) ''part_001.tar.lz4'' [1, 2, 3])))
       = [(''part_001.tar.lz4'', [1, 2, 3]), (''part_001.tar.lz4'', [1, 2, 3]),
          (''part_001.tar.lz4'', [1, 2, 3])]"
proof -
  have h: "fst (respond (UploadingFolder (NewUploader exampleCompressor flakyFolder))
          (length (puts (UploadingFolder (NewUploader exampleCompressor flakyFolder))) + 2)) = None"
    by (simp add: NewUploader_def flakyFolder_def)
  then have ex: "\<exists>k<3. fst (respond (UploadingFolder (NewUploader exampleCompressor flakyFolder))
          (length (puts (UploadingFolder (NewUploader exampleCompressor flakyFolder))) + k)) = None"
    by (intro exI [of _ 2]) simp
  have all: "\<forall>k<3. fst (respond (UploadingFolder (NewUploader exampleCompressor deadFolder))
          (length (puts (UploadingFolder (NewUploader exampleCompressor deadFolder))) + k)) \<noteq> None"
    by (simp add: NewUploader_def deadFolder_def)
  note a = Upload_retries [of "NewUploader exampleCompressor flakyFolder" "''part_001.tar.lz4''" "[1, 2, 3]",
      THEN conjunct2, THEN conjunct1, THEN mp, OF ex]
  note b = Upload_retries [of "NewUploader exampleCompressor deadFolder" "''part_001.tar.lz4''" "[1, 2, 3]",
      THEN conjunct2, THEN conjunct2, THEN mp, OF all]
  have la: "puts (UploadingFolder
         (snd (Upload (NewUploader exampleCompressor flakyFolder) ''part_001.tar.lz4'' [1, 2, 3])))
       = [(''part_001.tar.lz4'', [1, 2, 3]), (''part_001.tar.lz4'', [1, 2, 3]),
          (''part_001.tar.lz4'', [1, 2, 3])]"
    using Upload_retries [of "NewUploader exampleCompressor flakyFolder" "''part_001.tar.lz4''" "[1, 2, 3]",
      THEN conjunct1]
    by (simp add: NewUploader_def flakyFolder_def)
  have lb: "puts (UploadingFolder
         (snd (Upload (NewUploader exampleCompressor deadFolder) ''part_001.tar.lz4'' [1, 2, 3])))
       = [(''part_001.tar.lz4'', [1, 2, 3]), (''part_001.tar.lz4'', [1, 2, 3]),
          (''part_001.tar.lz4'', [1, 2, 3])]"
    using Upload_retries [of "NewUploader exampleCompressor deadFolder" "''part_001.tar.lz4''" "[1, 2, 3]",
      THEN conjunct1]
    by (simp add: NewUploader_def deadFolder_def)
  have f: "Failed (NewUploader exampleCompressor flakyFolder) = False"
    by (simp add: NewUploader_def)
  have d: "fst (respond (UploadingFolder (NewUploader exampleCompressor deadFolder))
              (length (puts (UploadingFolder (NewUploader exampleCompressor deadFolder))) + 2))
            = Some (OtherError ''unreachable'')"
    by (simp add: NewUploader_def deadFolder_def)
  from h a b f d la lb show ?thesis by simp
qed

lemma Upload_Failed_mono: "Failed u \<Longrightarrow> Failed (snd (Upload u path content))"
  by (simp add: Upload_def UploadLoop_Failed_mono)

lemma Upload_flag_set:
  assumes "\<not> Failed u" "Failed (snd (Upload u path content))"
  shows "fst (Upload u path content) \<noteq> None
       \<and> (\<forall>k<3. fst (respond (UploadingFolder u) (length (puts (UploadingFolder u)) + k)) \<noteq> None)"
proof -
  obtain e0 k0 where r0: "respond (UploadingFolder u) (length (puts (UploadingFolder u))) = (e0, k0)"
    by (cases "respond (UploadingFolder u) (length (puts (UploadingFolder u)))")
  obtain e1 k1 where r1: "respond (UploadingFolder u) (length (puts (UploadingFolder u)) + 1) = (e1, k1)"
    by (cases "respond (UploadingFolder u) (length (puts (UploadingFolder u)) + 1)")
  obtain e2 k2 where r2: "respond (UploadingFolder u) (length (puts (UploadingFolder u)) + 2) = (e2, k2)"
    by (cases "respond (UploadingFolder u) (length (puts (UploadingFolder u)) + 2)")
  from Upload_unrolled [OF r0 r1 r2, of path content]
  obtain u' where res: "Upload u path content
            = (if e0 = None \<or> e1 = None \<or> e2 = None then None else e2, u')"
    and flag: "Failed u' = (if e0 = None \<or> e1 = None \<or> e2 = None then Failed u else True)"
    by blast
  from assms res flag have none: "\<not> (e0 = None \<or> e1 = None \<or> e2 = None)"
    by (auto split: if_splits)
  then have "fst (Upload u path content) \<noteq> None" using res by auto
  moreover have "\<forall>k<3. fst (respond (UploadingFolder u) (length (puts (UploadingFolder u)) + k)) \<noteq> None"
    using none r0 r1 r2 by (auto simp: less_three)
  ultimately show ?thesis by blast
qed

lemma uploadMultiple_Failed_mono:
  "Failed u \<Longrightarrow> Failed (snd (uploadMultiple u objects))"
proof (induction objects arbitrary: u)
  case Nil
  then show ?case by simp
next
  case (Cons object objects)
  from Upload_Failed_mono [OF Cons.prems, of "Path object" "Content object"]
  show ?case
    by (auto split: prod.splits option.splits dest: Cons.IH)
qed

lemma uploadMultiple_flag_set:
  "\<not> Failed u \<Longrightarrow> Failed (snd (uploadMultiple u objects)) \<Longrightarrow> fst (uploadMultiple u objects) \<noteq> None"
proof (induction objects arbitrary: u)
  case Nil
  then show ?case by simp
next
  case (Cons object objects)
  obtain e u1 where up: "Upload u (Path object) (Content object) = (e, u1)"
    by (cases "Upload u (Path object) (Content object)")
  show ?case
  proof (cases e)
    case (Some err)
    with up show ?thesis by simp
  next
    case None
    have "\<not> Failed u1"
      using Upload_flag_set [OF Cons.prems(1), of "Path object" "Content object"] up None by auto
    moreover have "Failed (snd (uploadMultiple u1 objects))"
      using Cons.prems(2) up None by simp
    ultimately have "fst (uploadMultiple u1 objects) \<noteq> None" by (rule Cons.IH)
    with up None show ?thesis by simp
  qed
qed

lemma applyOp_Failed_mono: "Failed u \<Longrightarrow> Failed (snd (applyOp sp u operation))"
  by (cases operation)
    (simp_all add: Upload_Failed_mono uploadMultiple_Failed_mono UploadFile_def Let_def
      DisableSizeTracking_def)

lemma applyOps_Failed_mono: "Failed u \<Longrightarrow> Failed (applyOps sp u ops)"
  by (induction ops arbitrary: u) (simp_all add: applyOp_Failed_mono)

text \<open>
  Claim C8. The \<open>Failed\<close> flag is written once, to true: \<open>NewUploader\<close> builds an
  uploader with the flag false; once the flag is true it is true after every sequence
  of operations on the uploader, and in every clone made of it; an operation that
  finds the flag false and leaves it true is an upload (\<open>Upload\<close>, \<open>UploadFile\<close> or
  \<open>uploadMultiple\<close>) that returned an error, and in \<open>Upload\<close> it is the one whose three
  calls of \<open>PutObject\<close> were all answered with an error.
\<close>

theorem Failed_write_once:
  "\<not> Failed (NewUploader compressor folder)
   \<and> (Failed u \<longrightarrow> Failed (applyOps SanitizePath u ops))
   \<and> Failed (clone u) = Failed u
   \<and> (\<not> Failed u \<and> Failed (snd (applyOp SanitizePath u operation))
        \<longrightarrow> fst (applyOp SanitizePath u operation) \<noteq> None
            \<and> ((\<exists>path content. operation = OpUpload path content)
                 \<or> (\<exists>file. operation = OpUploadFile file)
                 \<or> (\<exists>objects. operation = OpUploadMultiple objects)))
   \<and> (\<not> Failed u \<and> Failed (snd (Upload u path content))
        \<longrightarrow> fst (Upload u path content) \<noteq> None
            \<and> (\<forall>k<3. fst (respond (UploadingFolder u) (length (puts (UploadingFolder u)) + k))
                        \<noteq> None))"
proof (intro conjI impI)
  show "\<not> Failed (NewUploader compressor folder)" by (simp add: NewUploader_def)
next
  assume "Failed u"
  then show "Failed (applyOps SanitizePath u ops)" by (rule applyOps_Failed_mono)
next
  show "Failed (clone u) = Failed u" by (simp add: clone_def)
next
  assume a: "\<not> Failed u \<and> Failed (snd (applyOp SanitizePath u operation))"
  then show "fst (applyOp SanitizePath u operation) \<noteq> None"
    by (cases operation)
      (auto simp: UploadFile_def Let_def DisableSizeTracking_def
        dest: Upload_flag_set uploadMultiple_flag_set)
  from a show "(\<exists>path content. operation = OpUpload path content)
                 \<or> (\<exists>file. operation = OpUploadFile file)
                 \<or> (\<exists>objects. operation = OpUploadMultiple objects)"
    by (cases operation) (auto simp: DisableSizeTracking_def)
next
  assume a: "\<not> Failed u \<and> Failed (snd (Upload u path content))"
  then show "fst (Upload u path content) \<noteq> None"
    using Upload_flag_set [of u path content] by blast
  from a show "\<forall>k<3. fst (respond (UploadingFolder u) (length (puts (UploadingFolder u)) + k))
                        \<noteq> None"
    using Upload_flag_set [of u path content] by blast
qed

lemma deadFolder_upload:
  "fst (Upload (NewUploader exampleCompressor deadFolder) path content) = Some (OtherError ''unreachable'')
   \<and> Failed (snd (Upload (NewUploader exampleCompressor deadFolder) path content))"
proof -
  define u where "u = NewUploader exampleCompressor deadFolder"
  have r: "respond (UploadingFolder u) n = (Some (OtherError ''unreachable''), 0)" for n
    by (simp add: u_def NewUploader_def deadFolder_def)
  from Upload_unrolled [OF r r r, of path content]
  show ?thesis unfolding u_def by auto
qed

theorem Failed_write_once_witness:
  "\<not> Failed (NewUploader exampleCompressor deadFolder)
   \<and> Failed (snd (applyOp (dropWhile (\<lambda>c. c = CHR ''/'')) (NewUploader exampleCompressor deadFolder)
                    (OpUpload ''part_001.tar.lz4'' [1, 2, 3])))
   \<and> fst (applyOp (dropWhile (\<lambda>c. c = CHR ''/'')) (NewUploader exampleCompressor deadFolder)
                    (OpUpload ''part_001.tar.lz4'' [1, 2, 3])) \<noteq> None
   \<and> Failed (applyOps (dropWhile (\<lambda>c. c = CHR ''/''))
               (snd (Upload (NewUploader exampleCompressor deadFolder) ''part_001.tar.lz4'' [1, 2, 3]))
               [OpDisableSizeTracking, OpUpload ''part_002.tar.lz4'' [4], OpClone, OpFinish])"
proof -
  define sp :: "string \<Rightarrow> string" where "sp = dropWhile (\<lambda>c. c = CHR ''/'')"
  define u where "u = NewUploader exampleCompressor deadFolder"
  define u' where "u' = snd (Upload u ''part_001.tar.lz4'' [1, 2, 3])"
  have new: "\<not> Failed u" by (simp add: u_def NewUploader_def)
  have failed: "Failed (snd (applyOp sp u (OpUpload ''part_001.tar.lz4'' [1, 2, 3])))"
    using deadFolder_upload [of "''part_001.tar.lz4''" "[1, 2, 3]"] by (simp add: u_def)
  then have failed': "Failed u'" by (simp add: u'_def)
  note t1 = Failed_write_once [of exampleCompressor deadFolder u' sp
      "[OpDisableSizeTracking, OpUpload ''part_002.tar.lz4'' [4], OpClone, OpFinish]"]
  note t2 = Failed_write_once [of exampleCompressor deadFolder u sp "[]"
      "OpUpload ''part_001.tar.lz4'' [1, 2, 3]"]
  have a: "Failed (applyOps sp u' [OpDisableSizeTracking, OpUpload ''part_002.tar.lz4'' [4], OpClone, OpFinish])"
    using t1 [THEN conjunct2, THEN conjunct1, THEN mp, OF failed'] .
  have b: "fst (applyOp sp u (OpUpload ''part_001.tar.lz4'' [1, 2, 3])) \<noteq> None"
    using t2 [THEN conjunct2, THEN conjunct2, THEN conjunct2, THEN conjunct1, THEN mp,
        OF conjI [OF new failed]] by (rule conjunct1)
  from new failed a b show ?thesis
    unfolding sp_def u_def u'_def by (intro conjI)
qed

section \<open>Verification: WAL push\<close>

lemma Wrap_not_overwrite [simp]: "Wrap message err \<noteq> Some (CantOverwriteWalFileError q)"
  by (cases err) (simp_all add: Wrap_def)

lemma Wrap_None [simp]: "Wrap message None = None"
  by (simp add: Wrap_def)







end
